theory Spec2Isabelle
  imports Complex_Main "HOL-Library.Multiset" "HOL-Library.List_Lexorder" "HOL-Library.Product_Lexorder"
    "HOL-Library.Sublist"
begin

section \<open>Strings\<close>

text \<open>
  A JavaScript string is modelled as the list of its characters, each character being its
  code point. The model covers strings of the Basic Multilingual Plane, where a character
  is one UTF-16 code unit, so that \<open>for (const ch of s)\<close>, \<open>s[i]\<close> and \<open>s.length\<close> agree
  with the list operations. Every string that passes \<open>isValidInput\<close> and every word over
  the Danish alphabet is of that kind.
\<close>

type_synonym jchar = nat
type_synonym jstring = "jchar list"

definition jstr :: "string \<Rightarrow> jstring" where
  "jstr s = map of_char s"

text \<open>The characters \<open>String.prototype.trim\<close> strips and the regular expression \<open>\s\<close> matches.\<close>

definition isWhiteSpace :: "jchar \<Rightarrow> bool" where
  "isWhiteSpace c \<longleftrightarrow>
     c \<in> set [9, 10, 11, 12, 13, 32, 160, 5760, 8192, 8193, 8194, 8195, 8196, 8197, 8198,
                8199, 8200, 8201, 8202, 8232, 8233, 8239, 8287, 12288, 65279]"

definition trim :: "jstring \<Rightarrow> jstring" where
  "trim s = rev (dropWhile isWhiteSpace (rev (dropWhile isWhiteSpace s)))"

text \<open>
  \<open>String.prototype.toUpperCase\<close> on the Latin-1 range: the letters a-z and the accented
  lower-case letters move to their capitals, the sharp s becomes two characters, the micro
  sign and y with diaeresis leave Latin-1. Above Latin-1 the model upper-cases the
  characters whose upper-case form is made of the letters A-Z, which are the ones a valid
  rack can hold: the dotless i (305), the long s (383) and the ligatures ff, fi, fl, ffi,
  ffl and the two st (64256 to 64262). Every other character above Latin-1 is left
  unchanged by the model.
\<close>

definition upperChar :: "jchar \<Rightarrow> jstring" where
  "upperChar c =
     (if 97 \<le> c \<and> c \<le> 122 then [c - 32]
      else if c = 181 then [924]
      else if c = 223 then [83, 83]
      else if (224 \<le> c \<and> c \<le> 246) \<or> (248 \<le> c \<and> c \<le> 254) then [c - 32]
      else if c = 255 then [376]
      else if c = 305 then [73]
      else if c = 383 then [83]
      else if c = 64256 then [70, 70]
      else if c = 64257 then [70, 73]
      else if c = 64258 then [70, 76]
      else if c = 64259 then [70, 70, 73]
      else if c = 64260 then [70, 70, 76]
      else if c = 64261 \<or> c = 64262 then [83, 84]
      else [c])"

definition toUpperCase :: "jstring \<Rightarrow> jstring" where
  "toUpperCase s = concat (map upperChar s)"

text \<open>\<open>s.replace(/\s+/g, ' ')\<close>: every maximal run of white space becomes one space.\<close>

function collapseSpaces :: "jstring \<Rightarrow> jstring" where
  "collapseSpaces [] = []"
| "collapseSpaces (c # cs) =
     (if isWhiteSpace c then 32 # collapseSpaces (dropWhile isWhiteSpace cs)
      else c # collapseSpaces cs)"
  by pat_completeness auto
termination
  by (relation "measure length") (auto simp: length_dropWhile_le less_Suc_eq_le)

definition normalizeString :: "jstring \<Rightarrow> jstring" where
  "normalizeString str =
     (if str = [] then [] else collapseSpaces (toUpperCase (trim str)))"

section \<open>Letter-count maps\<close>

text \<open>
  A JavaScript \<open>Map\<close> from letters to counts is an association list in insertion order:
  \<open>set\<close> overwrites the entry of a key that is present and appends a new key at the end.
\<close>

type_synonym counts = "(jchar \<times> nat) list"

fun mapSet :: "counts \<Rightarrow> jchar \<Rightarrow> nat \<Rightarrow> counts" where
  "mapSet [] k v = [(k, v)]"
| "mapSet ((k', v') # m) k v = (if k' = k then (k, v) # m else (k', v') # mapSet m k v)"

text \<open>\<open>m.get(k) || 0\<close>\<close>

definition getOr0 :: "counts \<Rightarrow> jchar \<Rightarrow> nat" where
  "getOr0 m k = (case map_of m k of None \<Rightarrow> 0 | Some n \<Rightarrow> n)"

section \<open>Parsing the rack\<close>

text \<open>\<open>WILDCARD_CHARS = ['?', '_', '*', ' ']\<close>\<close>

definition WILDCARD_CHARS :: "jchar list" where
  "WILDCARD_CHARS = [63, 95, 42, 32]"

fun parseScan :: "jstring \<Rightarrow> counts \<times> int \<Rightarrow> counts \<times> int" where
  "parseScan [] st = st"
| "parseScan (c # cs) (letterCounts, wildcards) =
     (if c \<in> set WILDCARD_CHARS then parseScan cs (letterCounts, wildcards + 1)
      else if c \<noteq> 32 then parseScan cs (mapSet letterCounts c (getOr0 letterCounts c + 1), wildcards)
      else parseScan cs (letterCounts, wildcards))"

definition parseLetters :: "jstring \<Rightarrow> counts \<times> int" where
  "parseLetters lettersString = parseScan (normalizeString lettersString) ([], 0)"

section \<open>Formability\<close>

text \<open>The loop \<open>for (const letter of word)\<close> that counts the letters of the word.\<close>

fun countLetters :: "jstring \<Rightarrow> counts \<Rightarrow> counts" where
  "countLetters [] wordLetters = wordLetters"
| "countLetters (letter # rest) wordLetters =
     countLetters rest (mapSet wordLetters letter (getOr0 wordLetters letter + 1))"

record formResult =
  canForm :: bool
  wildcardsUsed :: int
  usedUserLetters :: bool

text \<open>
  The loop over the entries of \<open>wordLetters\<close> in \<open>canFormWord\<close>; the state is
  \<open>(wildcardsNeeded, usedUserLetters)\<close>.
\<close>

fun coverLoop :: "counts \<Rightarrow> counts \<Rightarrow> int \<times> bool \<Rightarrow> int \<times> bool" where
  "coverLoop [] availableLetters st = st"
| "coverLoop ((letter, cnt) # rest) availableLetters (wildcardsNeeded, used) =
     (let available = getOr0 availableLetters letter;
          shortfall = int cnt - int available
      in coverLoop rest availableLetters
           (if shortfall > 0 then wildcardsNeeded + shortfall else wildcardsNeeded,
            if available > 0 then True else used))"

text \<open>The same loop in \<open>canFormWordWithExtras\<close>, which skips the entries whose count is 0.\<close>

fun coverLoopSkip :: "counts \<Rightarrow> counts \<Rightarrow> int \<times> bool \<Rightarrow> int \<times> bool" where
  "coverLoopSkip [] availableLetters st = st"
| "coverLoopSkip ((letter, cnt) # rest) availableLetters (wildcardsNeeded, used) =
     (if cnt = 0 then coverLoopSkip rest availableLetters (wildcardsNeeded, used)
      else
        (let available = getOr0 availableLetters letter;
             shortfall = int cnt - int available
         in coverLoopSkip rest availableLetters
              (if shortfall > 0 then wildcardsNeeded + shortfall else wildcardsNeeded,
               if available > 0 then True else used)))"

text \<open>
  The loop over the entries of \<open>extraLetters\<close> that takes the board letters out of
  \<open>wordLetters\<close>. \<open>!current\<close> holds when the letter is absent or its count is 0.
\<close>

fun subtractExtras :: "counts \<Rightarrow> counts \<Rightarrow> counts" where
  "subtractExtras [] wordLetters = wordLetters"
| "subtractExtras ((letter, extraCount) # rest) wordLetters =
     (case map_of wordLetters letter of
        None \<Rightarrow> subtractExtras rest wordLetters
      | Some current \<Rightarrow>
          if current = 0 then subtractExtras rest wordLetters
          else
            (let remaining = int current - int extraCount
             in subtractExtras rest
                  (mapSet wordLetters letter (if remaining > 0 then nat remaining else 0))))"

text \<open>\<open>canFormWord\<close> of the utilities module (main thread).\<close>

definition canFormWord :: "jstring \<Rightarrow> counts \<Rightarrow> int \<Rightarrow> formResult" where
  "canFormWord word availableLetters availableWildcards =
     (let wordLetters = countLetters word [];
          (wildcardsNeeded, used) = coverLoop wordLetters availableLetters (0, False);
          used' = (if wildcardsNeeded > 0 then True else used);
          cf = (wildcardsNeeded \<le> availableWildcards)
      in \<lparr>canForm = cf, wildcardsUsed = (if cf then wildcardsNeeded else 0),
          usedUserLetters = used'\<rparr>)"

text \<open>\<open>canFormWordWithExtras\<close> of the utilities module (main thread).\<close>

definition canFormWordWithExtras ::
    "jstring \<Rightarrow> counts \<Rightarrow> int \<Rightarrow> counts option \<Rightarrow> formResult" where
  "canFormWordWithExtras word availableLetters availableWildcards extraLetters =
     (let wordLetters0 = countLetters word [];
          wordLetters = (case extraLetters of None \<Rightarrow> wordLetters0
                         | Some extra \<Rightarrow> subtractExtras extra wordLetters0);
          (wildcardsNeeded, used) = coverLoopSkip wordLetters availableLetters (0, False);
          used' = (if wildcardsNeeded > 0 then True else used);
          cf = (wildcardsNeeded \<le> availableWildcards)
      in \<lparr>canForm = cf, wildcardsUsed = (if cf then wildcardsNeeded else 0),
          usedUserLetters = used'\<rparr>)"

text \<open>
  The two functions of the worker script. They have no step that turns a needed wildcard
  into a used rack letter, and the worker's \<open>canFormWord\<close> takes the board letters as an
  optional fourth argument.
\<close>

definition worker_canFormWordWithExtras ::
    "jstring \<Rightarrow> counts \<Rightarrow> int \<Rightarrow> counts option \<Rightarrow> formResult" where
  "worker_canFormWordWithExtras word availableLetters availableWildcards extraLetters =
     (let wordLetters0 = countLetters word [];
          wordLetters = (case extraLetters of None \<Rightarrow> wordLetters0
                         | Some extra \<Rightarrow> subtractExtras extra wordLetters0);
          (wildcardsNeeded, used) = coverLoopSkip wordLetters availableLetters (0, False);
          cf = (wildcardsNeeded \<le> availableWildcards)
      in \<lparr>canForm = cf, wildcardsUsed = (if cf then wildcardsNeeded else 0),
          usedUserLetters = used\<rparr>)"

definition worker_canFormWord ::
    "jstring \<Rightarrow> counts \<Rightarrow> int \<Rightarrow> counts option \<Rightarrow> formResult" where
  "worker_canFormWord word availableLetters availableWildcards extraLetters =
     (let wordLetters0 = countLetters word [];
          wordLetters = (case extraLetters of None \<Rightarrow> wordLetters0
                         | Some extra \<Rightarrow> subtractExtras extra wordLetters0);
          (wildcardsNeeded, used) = coverLoop wordLetters availableLetters (0, False);
          cf = (wildcardsNeeded \<le> availableWildcards)
      in \<lparr>canForm = cf, wildcardsUsed = (if cf then wildcardsNeeded else 0),
          usedUserLetters = used\<rparr>)"

section \<open>Board letters of a pattern\<close>

text \<open>\<open>DANISH_ALPHABET\<close>: the letters A to Z, then AE (198), O with stroke (216) and A with ring (197).\<close>

definition DANISH_ALPHABET :: jstring where
  "DANISH_ALPHABET = jstr ''ABCDEFGHIJKLMNOPQRSTUVWXYZ'' @ [198, 216, 197]"

fun extraScan :: "jstring \<Rightarrow> counts \<Rightarrow> counts" where
  "extraScan [] extra = extra"
| "extraScan (ch # rest) extra =
     (if ch \<in> set DANISH_ALPHABET then extraScan rest (mapSet extra ch (getOr0 extra ch + 1))
      else extraScan rest extra)"

definition buildExtraLettersFromPattern :: "jstring option \<Rightarrow> counts" where
  "buildExtraLettersFromPattern pattern =
     (case pattern of None \<Rightarrow> []
      | Some p \<Rightarrow> if p = [] then [] else extraScan (normalizeString p) [])"

definition worker_buildExtraLettersFromPattern :: "jstring option \<Rightarrow> counts" where
  "worker_buildExtraLettersFromPattern pattern =
     (case pattern of None \<Rightarrow> []
      | Some p \<Rightarrow> if p = [] then [] else extraScan (toUpperCase (trim p)) [])"

section \<open>Sorting\<close>

text \<open>
  \<open>Array.prototype.sort\<close> with a comparator is stable, and it places \<open>a\<close> before \<open>b\<close> when
  the comparator's value on \<open>(a, b)\<close> is negative. For a consistent comparator the stable
  sorted arrangement of an array is unique, and inserting the elements from the right, each
  before the first element that it does not follow, computes it.
\<close>

fun jsInsert :: "('a \<Rightarrow> 'a \<Rightarrow> 'b::{zero,linorder}) \<Rightarrow> 'a \<Rightarrow> 'a list \<Rightarrow> 'a list" where
  "jsInsert cmp x [] = [x]"
| "jsInsert cmp x (y # ys) = (if cmp x y \<le> 0 then x # y # ys else y # jsInsert cmp x ys)"

definition jsSort :: "('a \<Rightarrow> 'a \<Rightarrow> 'b::{zero,linorder}) \<Rightarrow> 'a list \<Rightarrow> 'a list" where
  "jsSort cmp xs = foldr (jsInsert cmp) xs []"

section \<open>Scoring\<close>

definition LETTER_VALUES :: "(jchar \<times> int) list" where
  "LETTER_VALUES =
     [(65, 1), (69, 1), (78, 1), (82, 1),
      (68, 2), (76, 2), (79, 2), (83, 2), (84, 2),
      (66, 3), (70, 3), (71, 3), (73, 3), (75, 3), (85, 3),
      (72, 4), (74, 4), (77, 4), (80, 4), (86, 4), (89, 4), (198, 4), (216, 4), (197, 4),
      (67, 8), (88, 8),
      (90, 9)]"

text \<open>
  \<open>getLetterValue\<close> of the scoring module upper-cases the letter before the lookup; a letter
  whose upper-case form is not one character has no entry.
\<close>

definition getLetterValue :: "jchar \<Rightarrow> int" where
  "getLetterValue letter =
     (case upperChar letter of
        [upper] \<Rightarrow> (case map_of LETTER_VALUES upper of None \<Rightarrow> 0 | Some v \<Rightarrow> v)
      | _ \<Rightarrow> 0)"

text \<open>The worker reads the table with the letter as it is: \<open>LETTER_VALUES[letter] || 0\<close>.\<close>

definition worker_letterValue :: "jchar \<Rightarrow> int" where
  "worker_letterValue letter = (case map_of LETTER_VALUES letter of None \<Rightarrow> 0 | Some v \<Rightarrow> v)"

text \<open>
  \<open>scoreWord\<close>, over the function that values a letter; \<open>letterPoints\<close> holds the pairs
  \<open>{letter, points}\<close>, sorted by points descending when wildcards are used.
\<close>

definition scoreWordWith :: "(jchar \<Rightarrow> int) \<Rightarrow> jstring \<Rightarrow> int \<Rightarrow> int" where
  "scoreWordWith valueOf word jokersUsed =
     (if word = [] \<or> jokersUsed < 0 then 0
      else
        (let letterPoints = map (\<lambda>letter. (letter, valueOf letter)) word;
             totalPoints = sum_list (map snd letterPoints)
         in if jokersUsed > 0 \<and> jokersUsed \<le> int (length word)
            then totalPoints -
                 sum_list (map snd (take (nat jokersUsed)
                                     (jsSort (\<lambda>a b. snd b - snd a) letterPoints)))
            else totalPoints))"

definition scoreWord :: "jstring \<Rightarrow> int \<Rightarrow> int" where
  "scoreWord = scoreWordWith getLetterValue"

definition worker_scoreWord :: "jstring \<Rightarrow> int \<Rightarrow> int" where
  "worker_scoreWord = scoreWordWith worker_letterValue"

section \<open>Board pattern\<close>

text \<open>
  The pieces of \<open>regexSource\<close>: an escaped or plain character matches itself, \<open>.\<close> matches
  one character that is no line terminator, \<open>.*\<close> matches any number of them. Every
  character with a meaning in a regular expression is either translated or escaped, so the
  source always compiles and the \<open>catch\<close> branch is never taken.
\<close>

datatype token = Lit jchar | AnyOne | AnyMany

definition isLineTerminator :: "jchar \<Rightarrow> bool" where
  "isLineTerminator c \<longleftrightarrow> c \<in> set [10, 13, 8232, 8233]"

text \<open>\<open>new RegExp('^' + regexSource + '$').test(w)\<close>: the whole of \<open>w\<close> matches the pieces.\<close>

fun regexTest :: "token list \<Rightarrow> jstring \<Rightarrow> bool" where
  "regexTest [] w = (w = [])"
| "regexTest (Lit c # ts) w = (case w of [] \<Rightarrow> False | x # xs \<Rightarrow> x = c \<and> regexTest ts xs)"
| "regexTest (AnyOne # ts) w =
     (case w of [] \<Rightarrow> False | x # xs \<Rightarrow> \<not> isLineTerminator x \<and> regexTest ts xs)"
| "regexTest (AnyMany # ts) w =
     (regexTest ts w \<or>
      (case w of [] \<Rightarrow> False | x # xs \<Rightarrow> \<not> isLineTerminator x \<and> regexTest (AnyMany # ts) xs))"

text \<open>The loop over the pattern; the state is \<open>(regexSource, wildcardCount)\<close>.\<close>

fun compilePattern :: "jstring \<Rightarrow> token list \<times> int \<Rightarrow> token list \<times> int" where
  "compilePattern [] st = st"
| "compilePattern (ch # rest) (regexSource, wildcardCount) =
     (if ch = 46 then compilePattern rest (regexSource @ [AnyOne], wildcardCount + 1)
      else if ch = 42 then compilePattern rest (regexSource @ [AnyMany], wildcardCount + 1)
      else if ch = 32 then compilePattern rest (regexSource, wildcardCount)
      else compilePattern rest (regexSource @ [Lit ch], wildcardCount))"

definition matchesBoardPattern :: "jstring \<Rightarrow> jstring \<Rightarrow> bool" where
  "matchesBoardPattern wordUpper pattern =
     (let trimmed = toUpperCase (trim pattern)
      in if trimmed = [] then True
         else if length trimmed > 50 then False
         else
           (let (regexSource, wildcardCount) = compilePattern trimmed ([], 0)
            in if wildcardCount > 15 then False else regexTest regexSource wordUpper))"

section \<open>Filters\<close>

record filters =
  boardPattern :: "jstring option"
  lengthMode :: "string option"
  exactLength :: "int option"
  minLength :: "int option"
  maxLength :: "int option"
  sortBy :: "string option"

text \<open>\<open>value || dflt\<close> on an optional string: absent and empty both give the default.\<close>

definition orDefault :: "'a list option \<Rightarrow> 'a list \<Rightarrow> 'a list" where
  "orDefault v dflt = (case v of None \<Rightarrow> dflt | Some s \<Rightarrow> if s = [] then dflt else s)"

definition passesLengthFilter :: "int \<Rightarrow> filters \<Rightarrow> bool" where
  "passesLengthFilter len filters =
     (let mode = orDefault (lengthMode filters) ''all''
      in if mode = ''all'' then len \<ge> 2 \<and> len \<le> 15
         else if mode = ''exact'' then
           (case exactLength filters of None \<Rightarrow> True | Some e \<Rightarrow> len = e)
         else if mode = ''range'' then
           (let mn = (case minLength filters of None \<Rightarrow> 2 | Some v \<Rightarrow> v);
                mx = (case maxLength filters of None \<Rightarrow> 15 | Some v \<Rightarrow> v)
            in len \<ge> mn \<and> len \<le> mx)
         else True)"

definition passesFilters :: "jstring \<Rightarrow> filters \<Rightarrow> bool" where
  "passesFilters word filters =
     (let wordUpper = toUpperCase word
      in if (case boardPattern filters of None \<Rightarrow> False
             | Some bp \<Rightarrow> bp \<noteq> [] \<and>
                 (let pattern = normalizeString bp
                  in pattern \<noteq> [] \<and> \<not> matchesBoardPattern wordUpper pattern))
         then False
         else if \<not> passesLengthFilter (int (length word)) filters then False
         else True)"

definition worker_passesFilters :: "jstring \<Rightarrow> filters \<Rightarrow> bool" where
  "worker_passesFilters word filters =
     (let wordUpper = toUpperCase word
      in if (case boardPattern filters of None \<Rightarrow> False
             | Some bp \<Rightarrow> bp \<noteq> [] \<and>
                 (let pattern = toUpperCase (trim bp)
                  in pattern \<noteq> [] \<and> \<not> matchesBoardPattern wordUpper pattern))
         then False
         else if \<not> passesLengthFilter (int (length word)) filters then False
         else True)"

section \<open>Ranking\<close>

text \<open>\<open>DANISH_ALPHABET.indexOf(c)\<close>: the position of the first occurrence, or \<open>-1\<close>.\<close>

fun indexOf :: "jstring \<Rightarrow> jchar \<Rightarrow> int" where
  "indexOf [] c = -1"
| "indexOf (x # xs) c = (if x = c then 0 else (let i = indexOf xs c in if i < 0 then -1 else i + 1))"

text \<open>
  The loop of \<open>compareDanish\<close> over the common positions of the two upper-cased strings,
  and the difference of the lengths after it; both strings are consumed together, so the
  difference of what is left is the difference of the lengths.
\<close>

fun compareLoop :: "jstring \<Rightarrow> jstring \<Rightarrow> int" where
  "compareLoop (x # xs) (y # ys) =
     (let aIndex = indexOf DANISH_ALPHABET x; bIndex = indexOf DANISH_ALPHABET y
      in if aIndex \<noteq> bIndex then aIndex - bIndex else compareLoop xs ys)"
| "compareLoop xs ys = int (length xs) - int (length ys)"

definition compareDanish :: "jstring \<Rightarrow> jstring \<Rightarrow> int" where
  "compareDanish a b = compareLoop (toUpperCase a) (toUpperCase b)"

record candidate =
  word :: jstring
  score :: int
  length_w :: int
  usedJokers :: int

text \<open>
  The comparator of the sort by score. The two quotients are rational numbers in the model;
  the doubles of the source order them the same way for the scores and lengths of words.
\<close>

definition compareScore :: "candidate \<Rightarrow> candidate \<Rightarrow> rat" where
  "compareScore a b =
     (if score b \<noteq> score a then of_int (score b - score a)
      else if usedJokers a \<noteq> usedJokers b then of_int (usedJokers a - usedJokers b)
      else
        (let aEfficiency = of_int (score a) / of_int (length_w a);
             bEfficiency = of_int (score b) / of_int (length_w b)
         in bEfficiency - aEfficiency))"

definition compareLength :: "candidate \<Rightarrow> candidate \<Rightarrow> int" where
  "compareLength a b =
     (if length_w b \<noteq> length_w a then length_w b - length_w a else score b - score a)"

definition sortResults :: "candidate list \<Rightarrow> string \<Rightarrow> candidate list" where
  "sortResults results by =
     (if by = ''score'' then jsSort compareScore results
      else if by = ''length'' then jsSort compareLength results
      else if by = ''alpha'' then jsSort (\<lambda>a b. compareDanish (word a) (word b)) results
      else jsSort (\<lambda>a b. score b - score a) results)"

section \<open>Search\<close>

text \<open>
  The loop of \<open>searchWords\<close> over the word list; the state is \<open>(results, seenWords)\<close>. The
  word list is a parameter: the source reads it from the loader module.
\<close>

fun searchLoop ::
    "counts \<Rightarrow> int \<Rightarrow> counts \<Rightarrow> filters \<Rightarrow> jstring list \<Rightarrow>
     candidate list \<times> jstring list \<Rightarrow> candidate list \<times> jstring list" where
  "searchLoop letterCounts wildcards extraLetters filters [] st = st"
| "searchLoop letterCounts wildcards extraLetters filters (w # ws) (results, seenWords) =
     (let normalizedWord = trim (toUpperCase w)
      in if normalizedWord \<in> set seenWords
         then searchLoop letterCounts wildcards extraLetters filters ws (results, seenWords)
         else
           (let r = (if extraLetters \<noteq> []
                     then canFormWordWithExtras w letterCounts wildcards (Some extraLetters)
                     else canFormWord w letterCounts wildcards)
            in if \<not> canForm r
               then searchLoop letterCounts wildcards extraLetters filters ws (results, seenWords)
               else if \<not> usedUserLetters r
               then searchLoop letterCounts wildcards extraLetters filters ws (results, seenWords)
               else if \<not> passesFilters w filters
               then searchLoop letterCounts wildcards extraLetters filters ws (results, seenWords)
               else searchLoop letterCounts wildcards extraLetters filters ws
                      (results @ [\<lparr>word = w, score = scoreWord w (wildcardsUsed r),
                                   length_w = int (length w), usedJokers = wildcardsUsed r\<rparr>],
                       seenWords @ [normalizedWord])))"

text \<open>\<open>searchWords\<close>: the \<open>results\<close> of the response (\<open>totalFound\<close> is their number).\<close>

definition searchWords :: "jstring list \<Rightarrow> jstring \<Rightarrow> filters \<Rightarrow> candidate list" where
  "searchWords allWords lettersString filters =
     (let (letterCounts, wildcards) = parseLetters lettersString;
          extraLetters = buildExtraLettersFromPattern (boardPattern filters);
          results = fst (searchLoop letterCounts wildcards extraLetters filters allWords ([], []))
      in sortResults results (orDefault (sortBy filters) ''score''))"

text \<open>The loop of the worker's \<open>handleSearch\<close>, with the worker's own functions.\<close>

fun worker_searchLoop ::
    "counts \<Rightarrow> int \<Rightarrow> counts \<Rightarrow> filters \<Rightarrow> jstring list \<Rightarrow>
     candidate list \<times> jstring list \<Rightarrow> candidate list \<times> jstring list" where
  "worker_searchLoop letterCounts wildcards extraLetters filters [] st = st"
| "worker_searchLoop letterCounts wildcards extraLetters filters (w # ws) (results, seenWords) =
     (let normalizedWord = trim (toUpperCase w)
      in if normalizedWord \<in> set seenWords
         then worker_searchLoop letterCounts wildcards extraLetters filters ws (results, seenWords)
         else
           (let r = (if extraLetters \<noteq> []
                     then worker_canFormWordWithExtras w letterCounts wildcards (Some extraLetters)
                     else worker_canFormWord w letterCounts wildcards None)
            in if \<not> canForm r
               then worker_searchLoop letterCounts wildcards extraLetters filters ws
                      (results, seenWords)
               else if \<not> usedUserLetters r
               then worker_searchLoop letterCounts wildcards extraLetters filters ws
                      (results, seenWords)
               else if \<not> worker_passesFilters w filters
               then worker_searchLoop letterCounts wildcards extraLetters filters ws
                      (results, seenWords)
               else worker_searchLoop letterCounts wildcards extraLetters filters ws
                      (results @ [\<lparr>word = w, score = worker_scoreWord w (wildcardsUsed r),
                                   length_w = int (length w), usedJokers = wildcardsUsed r\<rparr>],
                       seenWords @ [normalizedWord])))"

text \<open>
  \<open>handleSearch\<close> posts no response for a rack of more than 15 characters (\<open>None\<close>);
  otherwise it posts the \<open>results\<close>. The worker's \<open>parseLetters\<close> and \<open>sortResults\<close> are
  copies of the main thread's.
\<close>

definition handleSearch :: "jstring list \<Rightarrow> jstring \<Rightarrow> filters \<Rightarrow> candidate list option" where
  "handleSearch wordlist lettersString filters =
     (if length lettersString > 15 then None
      else
        (let (letterCounts, wildcards) = parseLetters lettersString;
             extraLetters = worker_buildExtraLettersFromPattern (boardPattern filters);
             results = fst (worker_searchLoop letterCounts wildcards extraLetters filters
                              wordlist ([], []))
         in Some (sortResults results (orDefault (sortBy filters) ''score''))))"

text \<open>The filter object \<open>{}\<close>, with no option set.\<close>

definition noFilters :: filters where
  "noFilters = \<lparr>boardPattern = None, lengthMode = None, exactLength = None, minLength = None,
                 maxLength = None, sortBy = None\<rparr>"

section \<open>Reference notions of the specification\<close>

text \<open>The sum of the \<open>k\<close> highest letter values of a word.\<close>

definition highestValues :: "(jchar \<Rightarrow> int) \<Rightarrow> jstring \<Rightarrow> nat \<Rightarrow> int" where
  "highestValues valueOf w k = sum_list (take k (rev (sort (map valueOf w))))"

text \<open>
  The number of wildcards a word needs: for each of its letters, what the board letters
  \<open>B\<close> leave of its count, less what the rack \<open>R\<close> holds of it, when that is positive.
\<close>

definition wildcardsRequired :: "jstring \<Rightarrow> counts \<Rightarrow> counts \<Rightarrow> int" where
  "wildcardsRequired w R B =
     (\<Sum>c\<in>set w. max 0 (max 0 (int (count_list w c) - int (getOr0 B c)) - int (getOr0 R c)))"

text \<open>What one entry of a letter map asks of the wildcards, the rack being \<open>R\<close>.\<close>

definition need :: "counts \<Rightarrow> jchar \<times> nat \<Rightarrow> int" where
  "need R e = max 0 (int (snd e) - int (getOr0 R (fst e)))"

text \<open>The number of wildcard symbols, \<open>.\<close> and \<open>*\<close>, of a pattern.\<close>

definition wildcardSymbols :: "jstring \<Rightarrow> nat" where
  "wildcardSymbols t = length (filter (\<lambda>c. c = 46 \<or> c = 42) t)"

text \<open>The order by score descending, then wildcards ascending, then points per letter descending.\<close>

definition pointsPerLetter :: "candidate \<Rightarrow> rat" where
  "pointsPerLetter a = of_int (score a) / of_int (length_w a)"

definition scoreOrder :: "candidate \<Rightarrow> candidate \<Rightarrow> bool" where
  "scoreOrder a b \<longleftrightarrow>
     score a > score b \<or>
     (score a = score b \<and>
       (usedJokers a < usedJokers b \<or>
        (usedJokers a = usedJokers b \<and> pointsPerLetter a \<ge> pointsPerLetter b)))"

text \<open>
  The positions in the Danish alphabet of the characters of the upper-cased word; lists of
  positions are compared lexicographically, a proper prefix being smaller.
\<close>

definition danishKey :: "jstring \<Rightarrow> int list" where
  "danishKey w = map (indexOf DANISH_ALPHABET) (toUpperCase w)"

definition danishBefore :: "jstring \<Rightarrow> jstring \<Rightarrow> bool" where
  "danishBefore a b \<longleftrightarrow>
     (danishKey a, danishKey b) \<in> lexord {(i, j). i < j} \<or> danishKey a = danishKey b"

text \<open>
  A result takes something from the player: some letter of its word has more occurrences
  than the board letters \<open>B\<close> cover, and the rack \<open>R\<close> holds that letter or a wildcard is
  used.
\<close>

definition takesFromPlayer :: "counts \<Rightarrow> counts \<Rightarrow> candidate \<Rightarrow> bool" where
  "takesFromPlayer R B r \<longleftrightarrow>
     (\<exists>c \<in> set (word r). count_list (word r) c > getOr0 B c \<and>
                            (getOr0 R c > 0 \<or> usedJokers r > 0))"

section \<open>Properties of the letter-count maps and of the rack parser\<close>

lemma map_of_mapSet: "map_of (mapSet m k v) = (map_of m)(k \<mapsto> v)"
  by (induction m k v rule: mapSet.induct) auto

lemma getOr0_mapSet: "getOr0 (mapSet m k v) c = (if c = k then v else getOr0 m c)"
  by (simp add: getOr0_def map_of_mapSet)








section \<open>Sorting and scoring\<close>

lemma mset_jsInsert: "mset (jsInsert cmp x ys) = add_mset x (mset ys)"
  by (induction ys) auto

lemma mset_jsSort: "mset (jsSort cmp xs) = mset xs"
  by (induction xs) (auto simp: jsSort_def mset_jsInsert)

lemma set_jsSort: "set (jsSort cmp xs) = set xs"
  using mset_jsSort [of cmp xs] by (metis set_mset_mset)

lemma length_jsSort: "length (jsSort cmp xs) = length xs"
  using mset_jsSort [of cmp xs] by (metis size_mset)

lemma set_jsInsert: "set (jsInsert cmp x ys) = insert x (set ys)"
  using mset_jsInsert [of cmp x ys] by (metis set_mset_add_mset_insert set_mset_mset)

lemma sorted_key_jsInsert:
  fixes key :: "'a \<Rightarrow> 'k::linorder"
  assumes k: "\<And>a b. (cmp a b \<le> 0) = (key a \<le> key b)"
  shows "sorted (map key ys) \<Longrightarrow> sorted (map key (jsInsert cmp x ys))"
proof (induction ys)
  case Nil
  then show ?case by simp
next
  case (Cons y ys)
  show ?case
  proof (cases "cmp x y \<le> 0")
    case True
    then have "key x \<le> key y" using k by simp
    then show ?thesis using True Cons.prems by auto
  next
    case False
    then have "key y \<le> key x" using k [of x y] by simp
    then show ?thesis using False Cons by (auto simp: set_jsInsert)
  qed
qed

lemma sorted_key_jsSort:
  fixes key :: "'a \<Rightarrow> 'k::linorder"
  assumes k: "\<And>a b. (cmp a b \<le> 0) = (key a \<le> key b)"
  shows "sorted (map key (jsSort cmp xs))"
proof (induction xs)
  case Nil
  then show ?case by (simp add: jsSort_def)
next
  case (Cons x xs)
  have "jsSort cmp (x # xs) = jsInsert cmp x (jsSort cmp xs)" by (simp add: jsSort_def)
  then show ?case using sorted_key_jsInsert [OF k] Cons by simp
qed

lemma points_sorted_desc:
  "map snd (jsSort (\<lambda>a b. snd b - snd a) (lp :: (jchar \<times> int) list)) = rev (sort (map snd lp))"
proof -
  let ?s = "jsSort (\<lambda>a b. snd b - snd a) lp"
  have "sorted (map (\<lambda>p. - snd p) ?s)"
    by (rule sorted_key_jsSort) auto
  then have "sorted_wrt (\<lambda>x y. snd y \<le> snd x) ?s" by (simp add: sorted_map)
  then have "sorted (rev (map snd ?s))"
    by (simp add: sorted_wrt_rev sorted_wrt_map)
  moreover have "mset (rev (map snd ?s)) = mset (map snd lp)"
    by (simp add: mset_jsSort)
  ultimately have "sort (map snd lp) = rev (map snd ?s)"
    by (rule properties_for_sort [rotated])
  then show ?thesis by simp
qed

lemma sum_take_bounds:
  "\<forall>x \<in> set xs. (0::int) \<le> x \<Longrightarrow> 0 \<le> sum_list (take k xs) \<and> sum_list (take k xs) \<le> sum_list xs"
proof (induction xs arbitrary: k)
  case Nil
  then show ?case by simp
next
  case (Cons x xs)
  then show ?case by (cases k) (auto intro: order_trans add_nonneg_nonneg)
qed

lemma getLetterValue_nonneg: "0 \<le> getLetterValue c"
proof -
  have "\<forall>p \<in> set LETTER_VALUES. 0 \<le> snd p" by (simp add: LETTER_VALUES_def)
  then have "map_of LETTER_VALUES u = Some v \<Longrightarrow> 0 \<le> v" for u v
    by (metis map_of_SomeD snd_conv)
  then show ?thesis
    by (auto simp: getLetterValue_def split: list.splits option.splits)
qed

lemma worker_letterValue_nonneg: "0 \<le> worker_letterValue c"
proof -
  have "\<forall>p \<in> set LETTER_VALUES. 0 \<le> snd p" by (simp add: LETTER_VALUES_def)
  then have "map_of LETTER_VALUES u = Some v \<Longrightarrow> 0 \<le> v" for u v
    by (metis map_of_SomeD snd_conv)
  then show ?thesis
    by (auto simp: worker_letterValue_def split: option.splits)
qed

lemma scoreWordWith_eq:
  assumes "0 \<le> k" "k \<le> int (length w)"
  shows "scoreWordWith f w k = sum_list (map f w) - highestValues f w (nat k)"
proof (cases "w = [] \<or> k = 0")
  case True
  then show ?thesis using assms
    by (auto simp: scoreWordWith_def highestValues_def comp_def)
next
  case False
  then have "k > 0" using assms by simp
  have "map snd (take (nat k) (jsSort (\<lambda>a b. snd b - snd a) (map (\<lambda>letter. (letter, f letter)) w)))
        = take (nat k) (rev (sort (map f w)))"
  proof -
    have "map snd (jsSort (\<lambda>a b. snd b - snd a) (map (\<lambda>letter. (letter, f letter)) w))
          = rev (sort (map f w))"
      using points_sorted_desc [of "map (\<lambda>letter. (letter, f letter)) w"]
      by (simp add: comp_def)
    then show ?thesis by (simp only: take_map [symmetric])
  qed
  then show ?thesis using False assms \<open>k > 0\<close>
    by (simp add: scoreWordWith_def highestValues_def Let_def comp_def)
qed

lemma highestValues_bounds:
  assumes "\<And>c. 0 \<le> f c"
  shows "0 \<le> highestValues f w k \<and> highestValues f w k \<le> sum_list (map f w)"
proof -
  have "\<forall>x \<in> set (rev (sort (map f w))). 0 \<le> x" using assms by auto
  from sum_take_bounds [OF this, of k]
  have "0 \<le> highestValues f w k \<and> highestValues f w k \<le> sum_list (rev (sort (map f w)))"
    by (simp add: highestValues_def)
  moreover have "sum_list (rev (sort (map f w))) = sum_list (map f w)"
    by (metis mset_rev mset_sort sum_mset_sum_list)
  ultimately show ?thesis by simp
qed

text \<open>
  C4: for \<open>0 \<le> k \<le> length w\<close> the score is the sum of the letter values of the word less
  the sum of its \<open>k\<close> highest letter values, and it lies between 0 and the sum of the
  letter values; for the scorer of the scoring module and for the worker's copy.
\<close>

theorem scoreWord_highest:
  assumes "0 \<le> k" and "k \<le> int (length w)"
  shows "scoreWord w k = sum_list (map getLetterValue w) - highestValues getLetterValue w (nat k)
       \<and> 0 \<le> scoreWord w k \<and> scoreWord w k \<le> sum_list (map getLetterValue w)
       \<and> worker_scoreWord w k =
           sum_list (map worker_letterValue w) - highestValues worker_letterValue w (nat k)
       \<and> 0 \<le> worker_scoreWord w k \<and> worker_scoreWord w k \<le> sum_list (map worker_letterValue w)"
  using scoreWordWith_eq [OF assms, of getLetterValue]
        scoreWordWith_eq [OF assms, of worker_letterValue]
        highestValues_bounds [of getLetterValue w "nat k", OF getLetterValue_nonneg]
        highestValues_bounds [of worker_letterValue w "nat k", OF worker_letterValue_nonneg]
  by (simp add: scoreWord_def worker_scoreWord_def)

text \<open>
  C5, as amended: for a non-empty word, a number of wildcards above the length of the word
  leaves the score at the plain sum of the letter values, and a negative number of wildcards
  gives the score 0.
\<close>

theorem scoreWord_outside:
  assumes "w \<noteq> []"
  shows "(k > int (length w) \<longrightarrow> scoreWord w k = sum_list (map getLetterValue w))
       \<and> (k < 0 \<longrightarrow> scoreWord w k = 0)"
  using assms by (simp add: scoreWord_def scoreWordWith_def comp_def)


theorem scoreWord_highest_witness:
  "(0::int) \<le> 2 \<and> 2 \<le> int (length [65, 88, 90 :: nat]) \<and> scoreWord [65, 88, 90] 2 = 1
   \<and> highestValues getLetterValue [65, 88, 90] 2 = 17 \<and> worker_scoreWord [65, 88, 90] 2 = 1"
  using scoreWord_highest [of 2 "[65, 88, 90]"]
  by (simp add: highestValues_def getLetterValue_def worker_letterValue_def upperChar_def
      LETTER_VALUES_def)

theorem scoreWord_outside_witness:
  "[65, 88, 90 :: nat] \<noteq> [] \<and> scoreWord [65, 88, 90] 4 = 18 \<and> scoreWord [65, 88, 90] (- 1) = 0"
  using scoreWord_outside [of "[65, 88, 90]" 4] scoreWord_outside [of "[65, 88, 90]" "- 1"]
  by (simp add: getLetterValue_def upperChar_def LETTER_VALUES_def)

text \<open>
  C5 as stated fails for a negative number of wildcards: the word \<open>A\<close> with \<open>-1\<close>
  wildcards scores 0, and the sum of its letter values is 1.
\<close>

theorem scoreWord_negative_counterexample:
  "scoreWord [65] (- 1) = 0 \<and> sum_list (map getLetterValue [65]) = 1"
  by (simp add: scoreWord_def scoreWordWith_def getLetterValue_def upperChar_def LETTER_VALUES_def)

section \<open>Formability\<close>

lemma keys_mapSet:
  "map fst (mapSet m k v) = (if k \<in> fst ` set m then map fst m else map fst m @ [k])"
  by (induction m k v rule: mapSet.induct) auto

lemma distinct_mapSet: "distinct (map fst m) \<Longrightarrow> distinct (map fst (mapSet m k v))"
  by (simp add: keys_mapSet)

lemma keyset_mapSet: "fst ` set (mapSet m k v) = insert k (fst ` set m)"
  by (induction m k v rule: mapSet.induct) auto

lemma sum_mapSet_incr:
  "sum_list (map snd (mapSet m k (Suc (getOr0 m k)))) = Suc (sum_list (map snd m))"
  by (induction m) (auto simp: getOr0_def)

lemma sum_mapSet_le:
  "map_of m k = Some cur \<Longrightarrow> v \<le> cur \<Longrightarrow> sum_list (map snd (mapSet m k v)) \<le> sum_list (map snd m)"
  by (induction m) (auto split: if_splits)

lemma countLetters_map_of:
  "map_of (countLetters w m) c =
     (if count_list w c = 0 then map_of m c else Some (getOr0 m c + count_list w c))"
  by (induction w arbitrary: m) (auto simp: map_of_mapSet getOr0_mapSet)

lemma countLetters_distinct:
  "distinct (map fst m) \<Longrightarrow> distinct (map fst (countLetters w m))"
  by (induction w arbitrary: m) (auto simp: distinct_mapSet)

lemma countLetters_keys: "fst ` set (countLetters w m) = fst ` set m \<union> set w"
  by (induction w arbitrary: m) (simp_all add: keyset_mapSet)

lemma countLetters_sum:
  "sum_list (map snd (countLetters w m)) = sum_list (map snd m) + length w"
  by (induction w arbitrary: m) (auto simp: sum_mapSet_incr)

lemma sum_list_by_keys:
  fixes h :: "jchar \<times> nat \<Rightarrow> int"
  shows "distinct (map fst es) \<Longrightarrow>
         sum_list (map h es) = (\<Sum>c\<in>fst ` set es. h (c, the (map_of es c)))"
proof (induction es)
  case Nil
  then show ?case by simp
next
  case (Cons e es)
  obtain a b where e: "e = (a, b)" by (cases e)
  have a: "a \<notin> fst ` set es" and d: "distinct (map fst es)" using Cons.prems e by auto
  have "(\<Sum>c\<in>fst ` set es. h (c, the (map_of (e # es) c)))
        = (\<Sum>c\<in>fst ` set es. h (c, the (map_of es c)))"
    using a e by (intro sum.cong) auto
  then show ?case using Cons.IH [OF d] a e by simp
qed

lemma subtractExtras_Cons:
  "subtractExtras ((letter, extraCount) # rest) wl =
     (if map_of wl letter = None \<or> map_of wl letter = Some 0 then subtractExtras rest wl
      else subtractExtras rest (mapSet wl letter (the (map_of wl letter) - extraCount)))"
proof (cases "map_of wl letter")
  case None
  then show ?thesis by simp
next
  case (Some current)
  have "(if int current - int extraCount > 0 then nat (int current - int extraCount) else 0)
        = current - extraCount" by auto
  then show ?thesis using Some by (simp add: Let_def)
qed

lemma subtractExtras_keys: "map fst (subtractExtras B wl) = map fst wl"
proof (induction B arbitrary: wl)
  case Nil
  then show ?case by simp
next
  case (Cons e rest)
  obtain letter extraCount where e: "e = (letter, extraCount)" by (cases e)
  show ?case
  proof (cases "map_of wl letter = None \<or> map_of wl letter = Some 0")
    case True
    then show ?thesis using Cons.IH [of wl] e by (simp only: subtractExtras_Cons if_True)
  next
    case False
    then have "letter \<in> fst ` set wl" by (metis map_of_eq_None_iff)
    then have "map fst (mapSet wl letter (the (map_of wl letter) - extraCount)) = map fst wl"
      by (simp add: keys_mapSet)
    then show ?thesis
      using Cons.IH [of "mapSet wl letter (the (map_of wl letter) - extraCount)"] e False
      by (simp only: subtractExtras_Cons if_False)
  qed
qed

lemma subtractExtras_sum:
  "sum_list (map snd (subtractExtras B wl)) \<le> sum_list (map snd wl)"
proof (induction B arbitrary: wl)
  case Nil
  then show ?case by simp
next
  case (Cons e rest)
  obtain letter extraCount where e: "e = (letter, extraCount)" by (cases e)
  show ?case
  proof (cases "map_of wl letter = None \<or> map_of wl letter = Some 0")
    case True
    then show ?thesis using Cons.IH [of wl] e by (simp only: subtractExtras_Cons if_True)
  next
    case False
    then obtain current where cur: "map_of wl letter = Some current" by auto
    have "current - extraCount \<le> current" by simp
    from sum_mapSet_le [OF cur this]
    have 1: "sum_list (map snd (mapSet wl letter (current - extraCount))) \<le> sum_list (map snd wl)" .
    have 2: "sum_list (map snd (subtractExtras rest (mapSet wl letter (current - extraCount))))
             \<le> sum_list (map snd (mapSet wl letter (current - extraCount)))"
      by (rule Cons.IH)
    have "subtractExtras (e # rest) wl = subtractExtras rest (mapSet wl letter (current - extraCount))"
      using False cur e by (simp only: subtractExtras_Cons if_False option.sel)
    then show ?thesis using 1 2 by simp
  qed
qed

lemma subtractExtras_map_of:
  "distinct (map fst B) \<Longrightarrow>
   map_of (subtractExtras B wl) c = map_option (\<lambda>v. v - getOr0 B c) (map_of wl c)"
proof (induction B arbitrary: wl)
  case Nil
  then show ?case by (cases "map_of wl c") (auto simp: getOr0_def)
next
  case (Cons e rest)
  obtain letter extraCount where e: "e = (letter, extraCount)" by (cases e)
  have notin: "letter \<notin> fst ` set rest" and d: "distinct (map fst rest)"
    using Cons.prems e by auto
  then have "map_of rest letter = None" by (simp add: map_of_eq_None_iff)
  then have g0: "getOr0 rest letter = 0" by (simp add: getOr0_def)
  have gl: "getOr0 (e # rest) letter = extraCount" using e by (simp add: getOr0_def)
  have gc: "c \<noteq> letter \<Longrightarrow> getOr0 (e # rest) c = getOr0 rest c" using e by (simp add: getOr0_def)
  show ?case
  proof (cases "map_of wl letter = None \<or> map_of wl letter = Some 0")
    case True
    have "map_of (subtractExtras (e # rest) wl) c = map_option (\<lambda>v. v - getOr0 rest c) (map_of wl c)"
      using True Cons.IH [OF d, of wl] e by (simp only: subtractExtras_Cons if_True)
    also have "\<dots> = map_option (\<lambda>v. v - getOr0 (e # rest) c) (map_of wl c)"
    proof (cases "c = letter")
      case True
      then show ?thesis using \<open>map_of wl letter = None \<or> map_of wl letter = Some 0\<close> by auto
    next
      case False
      then show ?thesis using gc by simp
    qed
    finally show ?thesis .
  next
    case False
    then obtain current where cur: "map_of wl letter = Some current" by auto
    have "subtractExtras (e # rest) wl = subtractExtras rest (mapSet wl letter (current - extraCount))"
      using False cur e by (simp only: subtractExtras_Cons if_False option.sel)
    then have "map_of (subtractExtras (e # rest) wl) c
          = map_option (\<lambda>v. v - getOr0 rest c) (map_of (mapSet wl letter (current - extraCount)) c)"
      using Cons.IH [OF d, of "mapSet wl letter (current - extraCount)"] by simp
    also have "\<dots> = map_option (\<lambda>v. v - getOr0 (e # rest) c) (map_of wl c)"
    proof (cases "c = letter")
      case True
      then show ?thesis using cur g0 gl by (simp add: map_of_mapSet)
    next
      case False
      then show ?thesis using gc by (simp add: map_of_mapSet)
    qed
    finally show ?thesis .
  qed
qed

lemma coverLoop_Cons:
  "coverLoop ((letter, cnt) # rest) R (n, u) =
     coverLoop rest R (n + need R (letter, cnt), u \<or> getOr0 R letter > 0)"
proof -
  have 1: "(if int cnt - int (getOr0 R letter) > 0 then n + (int cnt - int (getOr0 R letter)) else n)
           = n + need R (letter, cnt)"
    by (simp add: need_def max_def)
  have 2: "(if getOr0 R letter > 0 then True else u) = (u \<or> getOr0 R letter > 0)"
    by auto
  show ?thesis unfolding coverLoop.simps Let_def 1 2 ..
qed

lemma coverLoopSkip_Cons:
  "coverLoopSkip ((letter, cnt) # rest) R (n, u) =
     coverLoopSkip rest R (n + need R (letter, cnt), u \<or> (cnt > 0 \<and> getOr0 R letter > 0))"
proof (cases "cnt = 0")
  case True
  then have "need R (letter, cnt) = 0" by (simp add: need_def)
  then show ?thesis using True by simp
next
  case False
  have 1: "(if int cnt - int (getOr0 R letter) > 0 then n + (int cnt - int (getOr0 R letter)) else n)
           = n + need R (letter, cnt)"
    by (simp add: need_def max_def)
  have 2: "(if getOr0 R letter > 0 then True else u) = (u \<or> (cnt > 0 \<and> getOr0 R letter > 0))"
    using False by auto
  show ?thesis unfolding coverLoopSkip.simps Let_def 1 2 using False by simp
qed

lemma coverLoop_fst:
  "fst (coverLoop es R (n, u)) = n + sum_list (map (need R) es)"
proof (induction es arbitrary: n u)
  case Nil
  then show ?case by simp
next
  case (Cons e es)
  obtain letter cnt where e: "e = (letter, cnt)" by (cases e)
  show ?case unfolding e coverLoop_Cons Cons.IH by simp
qed

lemma coverLoopSkip_fst:
  "fst (coverLoopSkip es R (n, u)) = n + sum_list (map (need R) es)"
proof (induction es arbitrary: n u)
  case Nil
  then show ?case by simp
next
  case (Cons e es)
  obtain letter cnt where e: "e = (letter, cnt)" by (cases e)
  show ?case unfolding e coverLoopSkip_Cons Cons.IH by simp
qed

lemma coverLoop_snd:
  "snd (coverLoop es R (n, u)) = (u \<or> (\<exists>e \<in> set es. getOr0 R (fst e) > 0))"
proof (induction es arbitrary: n u)
  case Nil
  then show ?case by simp
next
  case (Cons e es)
  obtain letter cnt where e: "e = (letter, cnt)" by (cases e)
  show ?case unfolding e coverLoop_Cons Cons.IH by auto
qed

lemma coverLoopSkip_snd:
  "snd (coverLoopSkip es R (n, u)) = (u \<or> (\<exists>e \<in> set es. snd e > 0 \<and> getOr0 R (fst e) > 0))"
proof (induction es arbitrary: n u)
  case Nil
  then show ?case by simp
next
  case (Cons e es)
  obtain letter cnt where e: "e = (letter, cnt)" by (cases e)
  show ?case unfolding e coverLoopSkip_Cons Cons.IH by auto
qed

lemma need_bounds:
  "0 \<le> sum_list (map (need R) es) \<and> sum_list (map (need R) es) \<le> int (sum_list (map snd es))"
proof (induction es)
  case Nil
  then show ?case by simp
next
  case (Cons e es)
  have "0 \<le> need R e \<and> need R e \<le> int (snd e)" by (simp add: need_def)
  then show ?case using Cons by simp
qed


lemma residual_entries:
  assumes "distinct (map fst B)"
  shows "sum_list (map (need R) (subtractExtras B (countLetters w []))) = wildcardsRequired w R B"
proof -
  let ?wl = "countLetters w []"
  let ?es = "subtractExtras B ?wl"
  have keys: "map fst ?es = map fst ?wl" by (rule subtractExtras_keys)
  have "distinct (map fst ?wl)" by (rule countLetters_distinct) simp
  then have d: "distinct (map fst ?es)" using keys by simp
  have "fst ` set ?es = set (map fst ?es)" by simp
  also have "\<dots> = fst ` set ?wl" using keys by simp
  also have "\<dots> = set w" by (simp add: countLetters_keys)
  finally have ks: "fst ` set ?es = set w" .
  have val: "the (map_of ?es c) = count_list w c - getOr0 B c" if "c \<in> set w" for c
  proof -
    have "count_list w c \<noteq> 0" using that by (simp add: count_list_0_iff)
    then have "map_of ?wl c = Some (count_list w c)"
      by (simp add: countLetters_map_of getOr0_def)
    then show ?thesis by (simp add: subtractExtras_map_of [OF assms])
  qed
  have "sum_list (map (need R) ?es) = (\<Sum>c\<in>set w. need R (c, the (map_of ?es c)))"
    using sum_list_by_keys [OF d, of "need R"] ks by simp
  also have "\<dots> = (\<Sum>c\<in>set w.
      max 0 (max 0 (int (count_list w c) - int (getOr0 B c)) - int (getOr0 R c)))"
    by (intro sum.cong) (auto simp: val need_def)
  finally show ?thesis by (simp add: wildcardsRequired_def)
qed

lemma entries_bounds:
  "0 \<le> sum_list (map (need R) (case X of None \<Rightarrow> countLetters w []
                                  | Some B \<Rightarrow> subtractExtras B (countLetters w [])))
   \<and> sum_list (map (need R) (case X of None \<Rightarrow> countLetters w []
                                  | Some B \<Rightarrow> subtractExtras B (countLetters w [])))
       \<le> int (length w)"
proof -
  let ?es = "case X of None \<Rightarrow> countLetters w [] | Some B \<Rightarrow> subtractExtras B (countLetters w [])"
  have "sum_list (map snd ?es) \<le> sum_list (map snd (countLetters w []))"
    by (cases X) (simp_all add: subtractExtras_sum)
  then have "sum_list (map snd ?es) \<le> length w" by (simp add: countLetters_sum)
  then show ?thesis using need_bounds [where R = R and es = ?es] by linarith
qed

text \<open>
  C3: with the board letters \<open>B\<close> (a map, so no letter twice), the formability check of
  the main thread and the one of the worker say \<open>canForm\<close> exactly when the number of
  wildcards the word requires is at most the number of wildcards available, and then
  \<open>wildcardsUsed\<close> is that number.
\<close>

theorem canFormWordWithExtras_required:
  assumes "distinct (map fst B)"
  shows "canForm (canFormWordWithExtras w R j (Some B)) = (wildcardsRequired w R B \<le> j)
       \<and> (canForm (canFormWordWithExtras w R j (Some B)) \<longrightarrow>
            wildcardsUsed (canFormWordWithExtras w R j (Some B)) = wildcardsRequired w R B)
       \<and> canForm (worker_canFormWordWithExtras w R j (Some B)) = (wildcardsRequired w R B \<le> j)
       \<and> (canForm (worker_canFormWordWithExtras w R j (Some B)) \<longrightarrow>
            wildcardsUsed (worker_canFormWordWithExtras w R j (Some B)) = wildcardsRequired w R B)"
  using residual_entries [OF assms, where R = R and w = w]
  by (simp add: canFormWordWithExtras_def worker_canFormWordWithExtras_def Let_def split_def
      coverLoopSkip_fst)

text \<open>
  C10: each of the formability functions, of the main thread and of the worker, reports 0
  wildcards used when the word cannot be formed, and the number it reports is never
  negative and never above the length of the word.
\<close>

theorem wildcardsUsed_bounds:
  "(\<not> canForm (canFormWord w R j) \<longrightarrow> wildcardsUsed (canFormWord w R j) = 0)
   \<and> 0 \<le> wildcardsUsed (canFormWord w R j) \<and> wildcardsUsed (canFormWord w R j) \<le> int (length w)
   \<and> (\<not> canForm (canFormWordWithExtras w R j X) \<longrightarrow> wildcardsUsed (canFormWordWithExtras w R j X) = 0)
   \<and> 0 \<le> wildcardsUsed (canFormWordWithExtras w R j X)
   \<and> wildcardsUsed (canFormWordWithExtras w R j X) \<le> int (length w)
   \<and> (\<not> canForm (worker_canFormWord w R j X) \<longrightarrow> wildcardsUsed (worker_canFormWord w R j X) = 0)
   \<and> 0 \<le> wildcardsUsed (worker_canFormWord w R j X)
   \<and> wildcardsUsed (worker_canFormWord w R j X) \<le> int (length w)
   \<and> (\<not> canForm (worker_canFormWordWithExtras w R j X) \<longrightarrow>
        wildcardsUsed (worker_canFormWordWithExtras w R j X) = 0)
   \<and> 0 \<le> wildcardsUsed (worker_canFormWordWithExtras w R j X)
   \<and> wildcardsUsed (worker_canFormWordWithExtras w R j X) \<le> int (length w)"
  using entries_bounds [where R = R and X = None and w = w]
        entries_bounds [where R = R and X = X and w = w]
  by (simp add: canFormWord_def canFormWordWithExtras_def worker_canFormWord_def
      worker_canFormWordWithExtras_def Let_def split_def coverLoopSkip_fst coverLoop_fst)


lemma wildcardsRequired_remdups:
  "wildcardsRequired w R B =
     sum_list (map (\<lambda>c. max 0 (max 0 (int (count_list w c) - int (getOr0 B c)) - int (getOr0 R c)))
                   (remdups w))"
  by (simp add: wildcardsRequired_def sum_list_distinct_conv_sum_set)

theorem canFormWordWithExtras_required_witness:
  "distinct (map fst [(65::nat, 1::nat)])
   \<and> wildcardsRequired [65, 66, 66, 65] [(66, 1)] [(65, 1)] = 2
   \<and> canForm (canFormWordWithExtras [65, 66, 66, 65] [(66, 1)] 2 (Some [(65, 1)]))
   \<and> wildcardsUsed (canFormWordWithExtras [65, 66, 66, 65] [(66, 1)] 2 (Some [(65, 1)])) = 2
   \<and> \<not> canForm (worker_canFormWordWithExtras [65, 66, 66, 65] [(66, 1)] 1 (Some [(65, 1)]))"
proof -
  have d: "distinct (map fst [(65::nat, 1::nat)])" by simp
  have r: "wildcardsRequired [65, 66, 66, 65] [(66, 1)] [(65, 1)] = 2"
    by (simp add: wildcardsRequired_remdups getOr0_def)
  show ?thesis
    using canFormWordWithExtras_required [OF d, of "[65, 66, 66, 65]" "[(66, 1)]" 2]
          canFormWordWithExtras_required [OF d, of "[65, 66, 66, 65]" "[(66, 1)]" 1]
    unfolding r by simp
qed

theorem wildcardsUsed_bounds_witness:
  "\<not> canForm (canFormWord [65, 66] [] 1) \<and> wildcardsUsed (canFormWord [65, 66] [] 1) = 0
   \<and> wildcardsUsed (canFormWord [65, 66] [] 2) \<le> 2"
  using wildcardsUsed_bounds [of "[65, 66]" "[]" 1 None] wildcardsUsed_bounds [of "[65, 66]" "[]" 2 None]
  by (simp add: canFormWord_def getOr0_def)

section \<open>Caps on the board pattern\<close>

lemma compilePattern_count:
  "snd (compilePattern t (rs, n)) = n + int (wildcardSymbols t)"
  by (induction t arbitrary: rs n) (auto simp: wildcardSymbols_def)

text \<open>
  C7: \<open>matchesBoardPattern\<close> answers false, for every word, when the trimmed pattern has
  more than 50 characters and when it has more than 15 wildcard symbols; a non-empty trimmed
  pattern within both caps (50 characters and 15 wildcard symbols included) is not
  rejected by them: the answer is that of the compiled expression on the word. The model
  has no error branch: the function returns a truth value on every input.
\<close>

theorem matchesBoardPattern_caps:
  "(length (toUpperCase (trim p)) > 50 \<longrightarrow> \<not> matchesBoardPattern w p)
   \<and> (wildcardSymbols (toUpperCase (trim p)) > 15 \<longrightarrow> \<not> matchesBoardPattern w p)
   \<and> (toUpperCase (trim p) \<noteq> [] \<and> length (toUpperCase (trim p)) \<le> 50
        \<and> wildcardSymbols (toUpperCase (trim p)) \<le> 15 \<longrightarrow>
       matchesBoardPattern w p = regexTest (fst (compilePattern (toUpperCase (trim p)) ([], 0))) w)"
proof -
  let ?t = "toUpperCase (trim p)"
  have c: "snd (compilePattern ?t ([], 0)) = int (wildcardSymbols ?t)"
    by (simp add: compilePattern_count)
  have e: "?t = [] \<Longrightarrow> wildcardSymbols ?t = 0" by (simp add: wildcardSymbols_def)
  show ?thesis
    using c e by (auto simp: matchesBoardPattern_def Let_def split_def)
qed

lemma compilePattern_letters:
  "compilePattern (replicate n 65) (rs, k) = (rs @ replicate n (Lit 65), k)"
  by (induction n arbitrary: rs) (simp_all add: replicate_app_Cons_same)

lemma compilePattern_dots:
  "compilePattern (replicate n 46) (rs, k) = (rs @ replicate n AnyOne, k + int n)"
  by (induction n arbitrary: rs k) (simp_all add: replicate_app_Cons_same)

lemma regexTest_letters: "regexTest (replicate n (Lit c)) (replicate n c)"
  by (induction n) simp_all

lemma regexTest_dots: "regexTest (replicate n AnyOne) (replicate n 65)"
  by (induction n) (simp_all add: isLineTerminator_def)

lemma upperCase_plain: "\<forall>c \<in> set s. upperChar c = [c] \<Longrightarrow> toUpperCase s = s"
  by (induction s) (simp_all add: toUpperCase_def)

lemma trim_plain: "s \<noteq> [] \<Longrightarrow> \<not> isWhiteSpace (hd s) \<Longrightarrow> \<not> isWhiteSpace (last s) \<Longrightarrow> trim s = s"
proof -
  assume s: "s \<noteq> []" and h: "\<not> isWhiteSpace (hd s)" and l: "\<not> isWhiteSpace (last s)"
  have 1: "dropWhile isWhiteSpace s = s" using s h by (cases s) simp_all
  have "rev s \<noteq> []" and "hd (rev s) = last s" using s by (simp_all add: hd_rev)
  then have "\<not> isWhiteSpace (hd (rev s))" using l by simp
  then have 2: "dropWhile isWhiteSpace (rev s) = rev s"
    using \<open>rev s \<noteq> []\<close> by (metis dropWhile_eq_self_iff hd_in_set list.set_sel(1) dropWhile.simps(2) list.collapse)
  show ?thesis by (simp add: trim_def 1 2)
qed

theorem matchesBoardPattern_caps_witness:
  "\<not> matchesBoardPattern (replicate 51 65) (replicate 51 65)
   \<and> \<not> matchesBoardPattern (replicate 16 65) (replicate 16 46)
   \<and> matchesBoardPattern (replicate 50 65) (replicate 50 65)
   \<and> matchesBoardPattern (replicate 15 65) (replicate 15 46)"
proof -
  have t: "trim (replicate n c) = replicate n c" if "n > 0" "\<not> isWhiteSpace c" for n c
    using that by (intro trim_plain) auto
  have up: "toUpperCase (replicate n c) = replicate n c" if "upperChar c = [c]" for n c
    using that by (intro upperCase_plain) simp
  have u: "toUpperCase (trim (replicate 51 65)) = replicate 51 65"
          "toUpperCase (trim (replicate 50 65)) = replicate 50 65"
          "toUpperCase (trim (replicate 16 46)) = replicate 16 46"
          "toUpperCase (trim (replicate 15 46)) = replicate 15 46"
    by (simp_all add: t up isWhiteSpace_def upperChar_def)
  have w: "wildcardSymbols (replicate n 46) = n" "wildcardSymbols (replicate n 65) = 0" for n
    by (simp_all add: wildcardSymbols_def)
  have 1: "\<not> matchesBoardPattern (replicate 51 65) (replicate 51 65)"
    using matchesBoardPattern_caps [of "replicate 51 65" "replicate 51 65"] unfolding u by simp
  have 2: "\<not> matchesBoardPattern (replicate 16 65) (replicate 16 46)"
    using matchesBoardPattern_caps [of "replicate 16 46" "replicate 16 65"] unfolding u w by simp
  have 3: "matchesBoardPattern (replicate 50 65) (replicate 50 65)"
    using matchesBoardPattern_caps [of "replicate 50 65" "replicate 50 65"] unfolding u w
    by (simp add: compilePattern_letters regexTest_letters)
  have 4: "matchesBoardPattern (replicate 15 65) (replicate 15 46)"
    using matchesBoardPattern_caps [of "replicate 15 46" "replicate 15 65"] unfolding u w
    by (simp add: compilePattern_dots regexTest_dots)
  show ?thesis using 1 2 3 4 by simp
qed

section \<open>The comparators of the ranking\<close>

lemma compareScore_key:
  "(compareScore a b \<le> 0) =
     ((- score a, usedJokers a, - pointsPerLetter a) \<le> (- score b, usedJokers b, - pointsPerLetter b))"
  by (auto simp: compareScore_def pointsPerLetter_def Let_def)

lemma sortResults_score: "sorted_wrt scoreOrder (sortResults rs ''score'')"
proof -
  let ?key = "\<lambda>a. (- score a, usedJokers a, - pointsPerLetter a)"
  have "sorted (map ?key (jsSort compareScore rs))"
    by (rule sorted_key_jsSort) (rule compareScore_key)
  then have "sorted_wrt (\<lambda>a b. ?key a \<le> ?key b) (jsSort compareScore rs)"
    by (simp add: sorted_map)
  moreover have "?key a \<le> ?key b \<Longrightarrow> scoreOrder a b" for a b
    by (auto simp: scoreOrder_def)
  ultimately have "sorted_wrt scoreOrder (jsSort compareScore rs)"
    by (rule sorted_wrt_mono_rel [rotated]) simp
  then show ?thesis by (simp add: sortResults_def)
qed

lemma sortResults_default:
  assumes "by \<noteq> ''score''" "by \<noteq> ''length''" "by \<noteq> ''alpha''"
  shows "sorted_wrt (\<lambda>a b. score a \<ge> score b) (sortResults rs by)"
proof -
  have "sorted (map (\<lambda>a. - score a) (jsSort (\<lambda>a b. score b - score a) rs))"
    by (rule sorted_key_jsSort) auto
  then have "sorted_wrt (\<lambda>a b. score a \<ge> score b) (jsSort (\<lambda>a b. score b - score a) rs)"
    by (simp add: sorted_map)
  then show ?thesis using assms by (simp add: sortResults_def)
qed

lemma compareLoop_key:
  "(compareLoop xs ys \<le> 0) =
     (map (indexOf DANISH_ALPHABET) xs \<le> map (indexOf DANISH_ALPHABET) ys)"
  by (induction xs ys rule: compareLoop.induct) (auto simp: Let_def)

lemma compareLoop_strict:
  "(compareLoop xs ys < 0) =
     (map (indexOf DANISH_ALPHABET) xs < map (indexOf DANISH_ALPHABET) ys)"
proof (induction xs arbitrary: ys)
  case Nil
  then show ?case by (cases ys) auto
next
  case (Cons x xs)
  then show ?case by (cases ys) (auto simp: Let_def)
qed

lemma danishBefore_le: "danishBefore a b = (danishKey a \<le> danishKey b)"
  by (auto simp: danishBefore_def list_le_def list_less_def)

lemma compareDanish_key: "(compareDanish a b \<le> 0) = danishBefore a b"
  by (simp add: compareDanish_def compareLoop_key danishBefore_le danishKey_def)

lemma sortResults_alpha:
  "sorted_wrt (\<lambda>a b. danishBefore (word a) (word b)) (sortResults rs ''alpha'')"
proof -
  have "sorted (map (\<lambda>a. danishKey (word a)) (jsSort (\<lambda>a b. compareDanish (word a) (word b)) rs))"
    by (rule sorted_key_jsSort) (simp add: compareDanish_key danishBefore_le)
  then have "sorted_wrt (\<lambda>a b. danishBefore (word a) (word b))
               (jsSort (\<lambda>a b. compareDanish (word a) (word b)) rs)"
    by (simp add: sorted_map danishBefore_le)
  then show ?thesis by (simp add: sortResults_def)
qed

lemma prefix_before:
  assumes "toUpperCase b = toUpperCase a @ c # cs"
  shows "danishBefore a b \<and> \<not> danishBefore b a \<and> compareDanish a b < 0"
proof -
  let ?i = "indexOf DANISH_ALPHABET"
  have k: "danishKey b = danishKey a @ ?i c # map ?i cs"
    using assms by (simp add: danishKey_def)
  then have lt: "danishKey a < danishKey b"
    by (simp add: list_less_def lexord_append_rightI)
  then have "danishBefore a b" "\<not> danishBefore b a"
    by (auto simp: danishBefore_le)
  moreover have "compareDanish a b < 0"
    using lt by (simp add: compareDanish_def compareLoop_strict danishKey_def)
  ultimately show ?thesis by simp
qed

lemma filter_key_jsInsert:
  fixes key :: "'a \<Rightarrow> 'k::linorder"
  assumes k: "\<And>a b. (cmp a b \<le> 0) = (key a \<le> key b)"
  shows "filter (\<lambda>r. key r = v) (jsInsert cmp x ys) =
           (if key x = v then x # filter (\<lambda>r. key r = v) ys else filter (\<lambda>r. key r = v) ys)"
proof (induction ys)
  case Nil
  then show ?case by simp
next
  case (Cons y ys)
  show ?case
  proof (cases "cmp x y \<le> 0")
    case True
    then show ?thesis by simp
  next
    case False
    then have "key y < key x" using k [of x y] by simp
    then have "key x = v \<Longrightarrow> key y \<noteq> v" by auto
    then show ?thesis using False Cons.IH by auto
  qed
qed

lemma filter_key_jsSort:
  fixes key :: "'a \<Rightarrow> 'k::linorder"
  assumes k: "\<And>a b. (cmp a b \<le> 0) = (key a \<le> key b)"
  shows "filter (\<lambda>r. key r = v) (jsSort cmp xs) = filter (\<lambda>r. key r = v) xs"
proof (induction xs)
  case Nil
  then show ?case by (simp add: jsSort_def)
next
  case (Cons x xs)
  have "jsSort cmp (x # xs) = jsInsert cmp x (jsSort cmp xs)" by (simp add: jsSort_def)
  then show ?case using filter_key_jsInsert [OF k, where v = v and x = x and ys = "jsSort cmp xs"] Cons.IH by simp
qed

lemma sortResults_default_stable:
  assumes "by \<noteq> ''score''" "by \<noteq> ''length''" "by \<noteq> ''alpha''"
  shows "filter (\<lambda>r. score r = s) (sortResults rs by) = filter (\<lambda>r. score r = s) rs"
proof -
  have "filter (\<lambda>r. - score r = - s) (jsSort (\<lambda>a b. score b - score a) rs)
        = filter (\<lambda>r. - score r = - s) rs"
    by (rule filter_key_jsSort) auto
  then show ?thesis using assms by (simp add: sortResults_def)
qed

section \<open>The order of the results\<close>

lemmas eval_defs = searchWords_def handleSearch_def parseLetters_def jstr_def normalizeString_def
  trim_def toUpperCase_def upperChar_def isWhiteSpace_def WILDCARD_CHARS_def getOr0_def
  buildExtraLettersFromPattern_def worker_buildExtraLettersFromPattern_def
  canFormWord_def canFormWordWithExtras_def worker_canFormWord_def worker_canFormWordWithExtras_def
  passesFilters_def worker_passesFilters_def passesLengthFilter_def orDefault_def
  scoreWord_def worker_scoreWord_def scoreWordWith_def getLetterValue_def worker_letterValue_def
  LETTER_VALUES_def jsSort_def sortResults_def compareScore_def compareLength_def
  compareDanish_def DANISH_ALPHABET_def noFilters_def Let_def

lemma searchWords_unfold:
  "searchWords D rack f =
     sortResults (fst (searchLoop (fst (parseLetters rack)) (snd (parseLetters rack))
                         (buildExtraLettersFromPattern (boardPattern f)) f D ([], [])))
                 (orDefault (sortBy f) ''score'')"
  by (simp add: searchWords_def split_def Let_def)

lemma searchLoop_appends:
  "\<exists>ys. fst (searchLoop R j B f ws (rs, seen)) = rs @ ys \<and> subseq (map word ys) ws"
proof (induction ws arbitrary: rs seen)
  case Nil
  then show ?case by simp
next
  case (Cons w ws)
  let ?fr = "if B \<noteq> [] then canFormWordWithExtras w R j (Some B) else canFormWord w R j"
  let ?new = "\<lparr>word = w, score = scoreWord w (wildcardsUsed ?fr),
               length_w = int (length w), usedJokers = wildcardsUsed ?fr\<rparr>"
  show ?case
  proof (cases "trim (toUpperCase w) \<notin> set seen \<and> canForm ?fr \<and> usedUserLetters ?fr
                 \<and> passesFilters w f")
    case True
    then have eq: "searchLoop R j B f (w # ws) (rs, seen)
               = searchLoop R j B f ws (rs @ [?new], seen @ [trim (toUpperCase w)])"
      by (simp add: Let_def)
    obtain ys where ys: "fst (searchLoop R j B f ws (rs @ [?new], seen @ [trim (toUpperCase w)]))
                          = (rs @ [?new]) @ ys" "subseq (map word ys) ws"
      using Cons.IH by blast
    have "fst (searchLoop R j B f (w # ws) (rs, seen)) = rs @ (?new # ys)"
      using ys(1) by (simp only: eq) simp
    moreover have "subseq (map word (?new # ys)) (w # ws)" using ys(2) by simp
    ultimately show ?thesis by blast
  next
    case False
    then have eq: "searchLoop R j B f (w # ws) (rs, seen) = searchLoop R j B f ws (rs, seen)"
      by (auto simp: Let_def)
    obtain ys where ys: "fst (searchLoop R j B f ws (rs, seen)) = rs @ ys" "subseq (map word ys) ws"
      using Cons.IH by blast
    have "fst (searchLoop R j B f (w # ws) (rs, seen)) = rs @ ys"
      using ys(1) by (simp only: eq)
    moreover have "subseq (map word ys) (w # ws)" using ys(2) by (rule list_emb_Cons)
    ultimately show ?thesis by blast
  qed
qed

lemma searchLoop_word_order:
  "subseq (map word (fst (searchLoop R j B f D ([], [])))) D"
  using searchLoop_appends [of R j B f D "[]" "[]"] by auto

text \<open>
  C8, as amended: when \<open>sortBy\<close> is \<open>score\<close> or absent, the results are ordered by score
  descending, then by wildcards used ascending, then by points per letter descending, so
  that of two results with the same score and the same number of wildcards the one with
  the higher points per letter comes first; when \<open>sortBy\<close> is a name the engine does not
  recognise, the results are ordered by score descending, and results of equal score keep
  the order of the word list.
\<close>

theorem searchWords_score_order:
  "(sortBy f = None \<or> sortBy f = Some [] \<or> sortBy f = Some ''score'' \<longrightarrow>
      sorted_wrt scoreOrder (searchWords D rack f)
      \<and> (\<forall>i j. i < j \<and> j < length (searchWords D rack f)
             \<and> score (searchWords D rack f ! i) = score (searchWords D rack f ! j)
             \<and> usedJokers (searchWords D rack f ! i) = usedJokers (searchWords D rack f ! j) \<longrightarrow>
             pointsPerLetter (searchWords D rack f ! i) \<ge> pointsPerLetter (searchWords D rack f ! j)))
   \<and> (\<forall>s. sortBy f = Some s \<and> s \<noteq> [] \<and> s \<noteq> ''score'' \<and> s \<noteq> ''length'' \<and> s \<noteq> ''alpha'' \<longrightarrow>
          sorted_wrt (\<lambda>a b. score a \<ge> score b) (searchWords D rack f)
          \<and> (\<forall>v. subseq (map word (filter (\<lambda>r. score r = v) (searchWords D rack f))) D))"
proof -
  let ?rs = "fst (searchLoop (fst (parseLetters rack)) (snd (parseLetters rack))
                    (buildExtraLettersFromPattern (boardPattern f)) f D ([], []))"
  have 1: "sorted_wrt scoreOrder (searchWords D rack f)"
    if "sortBy f = None \<or> sortBy f = Some [] \<or> sortBy f = Some ''score''"
  proof -
    have "orDefault (sortBy f) ''score'' = ''score''" using that by (auto simp: orDefault_def)
    then show ?thesis by (simp add: searchWords_unfold sortResults_score)
  qed
  have 2: "pointsPerLetter (xs ! i) \<ge> pointsPerLetter (xs ! j)"
    if "sorted_wrt scoreOrder xs" "i < j" "j < length xs" "score (xs ! i) = score (xs ! j)"
       "usedJokers (xs ! i) = usedJokers (xs ! j)" for xs i j
  proof -
    have "scoreOrder (xs ! i) (xs ! j)" using that(1-3) by (simp add: sorted_wrt_iff_nth_less)
    then show ?thesis using that(4,5) by (simp add: scoreOrder_def)
  qed
  have 3: "sorted_wrt (\<lambda>a b. score a \<ge> score b) (searchWords D rack f)"
    if "sortBy f = Some s" "s \<noteq> []" "s \<noteq> ''score''" "s \<noteq> ''length''" "s \<noteq> ''alpha''" for s
  proof -
    have "orDefault (sortBy f) ''score'' = s" using that by (simp add: orDefault_def)
    then show ?thesis using that sortResults_default [of s] by (simp add: searchWords_unfold)
  qed
  have 4: "subseq (map word (filter (\<lambda>r. score r = v) (searchWords D rack f))) D"
    if "sortBy f = Some s" "s \<noteq> []" "s \<noteq> ''score''" "s \<noteq> ''length''" "s \<noteq> ''alpha''" for s v
  proof -
    have "orDefault (sortBy f) ''score'' = s" using that by (simp add: orDefault_def)
    then have "filter (\<lambda>r. score r = v) (searchWords D rack f) = filter (\<lambda>r. score r = v) ?rs"
      using that sortResults_default_stable [of s v ?rs] by (simp add: searchWords_unfold)
    moreover have "subseq (map word (filter (\<lambda>r. score r = v) ?rs)) (map word ?rs)"
      by (intro subseq_map subseq_filter_left)
    moreover have "subseq (map word ?rs) D" by (rule searchLoop_word_order)
    ultimately show ?thesis using subseq_order.order_trans by metis
  qed
  show ?thesis using 1 2 3 4 by blast
qed

theorem searchWords_score_order_witness:
  "sortBy (noFilters\<lparr>sortBy := Some ''score''\<rparr>) = Some ''score''
   \<and> searchWords [jstr ''ABE'', jstr ''AE''] (jstr ''AE?'') (noFilters\<lparr>sortBy := Some ''score''\<rparr>)
       = [\<lparr>word = [65, 69], score = 2, length_w = 2, usedJokers = 0\<rparr>,
          \<lparr>word = [65, 66, 69], score = 2, length_w = 3, usedJokers = 1\<rparr>]
   \<and> sorted_wrt scoreOrder
        (searchWords [jstr ''ABE'', jstr ''AE''] (jstr ''AE?'') (noFilters\<lparr>sortBy := Some ''score''\<rparr>))
   \<and> sortBy (noFilters\<lparr>sortBy := Some ''foo''\<rparr>) = Some ''foo''
   \<and> sorted_wrt (\<lambda>a b. score a \<ge> score b)
        (searchWords [jstr ''ABE'', jstr ''AE''] (jstr ''AE?'') (noFilters\<lparr>sortBy := Some ''foo''\<rparr>))
   \<and> subseq (map word (filter (\<lambda>r. score r = 2)
        (searchWords [jstr ''ABE'', jstr ''AE''] (jstr ''AE?'') (noFilters\<lparr>sortBy := Some ''foo''\<rparr>))))
        [jstr ''ABE'', jstr ''AE'']
   \<and> map word (filter (\<lambda>r. score r = 2)
        (searchWords [jstr ''ABE'', jstr ''AE''] (jstr ''AE?'') (noFilters\<lparr>sortBy := Some ''foo''\<rparr>)))
       = [jstr ''ABE'', jstr ''AE'']"
proof -
  have e: "searchWords [jstr ''ABE'', jstr ''AE''] (jstr ''AE?'') (noFilters\<lparr>sortBy := Some ''score''\<rparr>)
       = [\<lparr>word = [65, 69], score = 2, length_w = 2, usedJokers = 0\<rparr>,
          \<lparr>word = [65, 66, 69], score = 2, length_w = 3, usedJokers = 1\<rparr>]"
    by (simp add: eval_defs)
  have e2: "searchWords [jstr ''ABE'', jstr ''AE''] (jstr ''AE?'') (noFilters\<lparr>sortBy := Some ''foo''\<rparr>)
       = [\<lparr>word = [65, 66, 69], score = 2, length_w = 3, usedJokers = 1\<rparr>,
          \<lparr>word = [65, 69], score = 2, length_w = 2, usedJokers = 0\<rparr>]"
    by (simp add: eval_defs)
  have s: "sortBy (noFilters\<lparr>sortBy := Some ''score''\<rparr>) = Some ''score''"
          "sortBy (noFilters\<lparr>sortBy := Some ''foo''\<rparr>) = Some ''foo''" by simp_all
  have a: "sorted_wrt scoreOrder
        (searchWords [jstr ''ABE'', jstr ''AE''] (jstr ''AE?'') (noFilters\<lparr>sortBy := Some ''score''\<rparr>))"
    using searchWords_score_order [of "noFilters\<lparr>sortBy := Some ''score''\<rparr>"
            "[jstr ''ABE'', jstr ''AE'']" "jstr ''AE?''"] s(1) by blast
  have "''foo'' \<noteq> [] \<and> ''foo'' \<noteq> ''score'' \<and> ''foo'' \<noteq> ''length'' \<and> ''foo'' \<noteq> ''alpha''" by simp
  then have b: "sorted_wrt (\<lambda>a b. score a \<ge> score b)
        (searchWords [jstr ''ABE'', jstr ''AE''] (jstr ''AE?'') (noFilters\<lparr>sortBy := Some ''foo''\<rparr>))
      \<and> (\<forall>v. subseq (map word (filter (\<lambda>r. score r = v)
        (searchWords [jstr ''ABE'', jstr ''AE''] (jstr ''AE?'') (noFilters\<lparr>sortBy := Some ''foo''\<rparr>))))
        [jstr ''ABE'', jstr ''AE''])"
    using searchWords_score_order [of "noFilters\<lparr>sortBy := Some ''foo''\<rparr>"
            "[jstr ''ABE'', jstr ''AE'']" "jstr ''AE?''"] s(2) by blast
  have c: "map word (filter (\<lambda>r. score r = 2)
        (searchWords [jstr ''ABE'', jstr ''AE''] (jstr ''AE?'') (noFilters\<lparr>sortBy := Some ''foo''\<rparr>)))
       = [jstr ''ABE'', jstr ''AE'']"
    unfolding e2 by (simp add: jstr_def)
  show ?thesis using s e a b c by blast
qed

text \<open>
  C8 as stated fails for an unrecognised \<open>sortBy\<close>: with the rack \<open>AE?\<close> and the words
  \<open>ABE\<close>, \<open>AE\<close>, both of score 2, \<open>ABE\<close> (one wildcard) stays before \<open>AE\<close> (no wildcard).
\<close>

theorem searchWords_unrecognized_counterexample:
  "searchWords [jstr ''ABE'', jstr ''AE''] (jstr ''AE?'') (noFilters\<lparr>sortBy := Some ''foo''\<rparr>)
     = [\<lparr>word = [65, 66, 69], score = 2, length_w = 3, usedJokers = 1\<rparr>,
        \<lparr>word = [65, 69], score = 2, length_w = 2, usedJokers = 0\<rparr>]
   \<and> \<not> sorted_wrt scoreOrder
        (searchWords [jstr ''ABE'', jstr ''AE''] (jstr ''AE?'') (noFilters\<lparr>sortBy := Some ''foo''\<rparr>))"
proof -
  have e: "searchWords [jstr ''ABE'', jstr ''AE''] (jstr ''AE?'') (noFilters\<lparr>sortBy := Some ''foo''\<rparr>)
     = [\<lparr>word = [65, 66, 69], score = 2, length_w = 3, usedJokers = 1\<rparr>,
        \<lparr>word = [65, 69], score = 2, length_w = 2, usedJokers = 0\<rparr>]"
    by (simp add: eval_defs)
  show ?thesis unfolding e by (simp add: scoreOrder_def)
qed

text \<open>
  C9: with \<open>sortBy = alpha\<close> any two results are in the lexicographic order of the
  positions of their characters in the 29-letter Danish alphabet, which is the order
  \<open>compareDanish\<close> decides; a word that is a proper prefix of another comes before it; and
  Z has position 25, AE 26, O with stroke 27 and A with ring 28, whatever their codes.
\<close>

theorem searchWords_alpha_order:
  assumes "sortBy f = Some ''alpha''"
  shows "sorted_wrt (\<lambda>a b. danishBefore (word a) (word b)) (searchWords D rack f)
       \<and> (\<forall>a b. danishBefore a b = (compareDanish a b \<le> 0))
       \<and> (\<forall>a b c cs. toUpperCase b = toUpperCase a @ c # cs \<longrightarrow>
             danishBefore a b \<and> \<not> danishBefore b a)
       \<and> length DANISH_ALPHABET = 29
       \<and> indexOf DANISH_ALPHABET 90 = 25 \<and> indexOf DANISH_ALPHABET 198 = 26
       \<and> indexOf DANISH_ALPHABET 216 = 27 \<and> indexOf DANISH_ALPHABET 197 = 28"
proof -
  have "orDefault (sortBy f) ''score'' = ''alpha''" using assms by (simp add: orDefault_def)
  then have 1: "sorted_wrt (\<lambda>a b. danishBefore (word a) (word b)) (searchWords D rack f)"
    by (simp add: searchWords_unfold sortResults_alpha)
  have 2: "\<forall>a b c cs. toUpperCase b = toUpperCase a @ c # cs \<longrightarrow>
             danishBefore a b \<and> \<not> danishBefore b a"
    using prefix_before by blast
  have 3: "length DANISH_ALPHABET = 29 \<and> indexOf DANISH_ALPHABET 90 = 25
       \<and> indexOf DANISH_ALPHABET 198 = 26
       \<and> indexOf DANISH_ALPHABET 216 = 27 \<and> indexOf DANISH_ALPHABET 197 = 28"
    by (simp add: DANISH_ALPHABET_def jstr_def)
  show ?thesis using 1 2 3 by (simp add: compareDanish_key)
qed

theorem searchWords_alpha_order_witness:
  "sortBy (noFilters\<lparr>sortBy := Some ''alpha''\<rparr>) = Some ''alpha''
   \<and> map word (searchWords [[197, 76], [197, 66, 69, 78], jstr ''ABE'', [216, 76], jstr ''ZOO'']
                  ([197, 216] @ jstr ''LBENAZOO'') (noFilters\<lparr>sortBy := Some ''alpha''\<rparr>))
       = [jstr ''ABE'', jstr ''ZOO'', [216, 76], [197, 66, 69, 78], [197, 76]]
   \<and> sorted_wrt (\<lambda>a b. danishBefore (word a) (word b))
        (searchWords [[197, 76], [197, 66, 69, 78], jstr ''ABE'', [216, 76], jstr ''ZOO'']
                  ([197, 216] @ jstr ''LBENAZOO'') (noFilters\<lparr>sortBy := Some ''alpha''\<rparr>))"
proof -
  have s: "sortBy (noFilters\<lparr>sortBy := Some ''alpha''\<rparr>) = Some ''alpha''" by simp
  have e: "map word (searchWords [[197, 76], [197, 66, 69, 78], jstr ''ABE'', [216, 76], jstr ''ZOO'']
                  ([197, 216] @ jstr ''LBENAZOO'') (noFilters\<lparr>sortBy := Some ''alpha''\<rparr>))
       = [jstr ''ABE'', jstr ''ZOO'', [216, 76], [197, 66, 69, 78], [197, 76]]"
    by (simp add: eval_defs)
  have t: "sorted_wrt (\<lambda>a b. danishBefore (word a) (word b))
        (searchWords [[197, 76], [197, 66, 69, 78], jstr ''ABE'', [216, 76], jstr ''ZOO'']
                  ([197, 216] @ jstr ''LBENAZOO'') (noFilters\<lparr>sortBy := Some ''alpha''\<rparr>))"
    using searchWords_alpha_order [OF s] by (rule conjunct1)
  show ?thesis using s e t by (intro conjI)
qed

section \<open>Words the engine accepts\<close>

lemma extraScan_distinct: "distinct (map fst m) \<Longrightarrow> distinct (map fst (extraScan s m))"
  by (induction s arbitrary: m) (simp_all add: distinct_mapSet)

lemma buildExtra_distinct: "distinct (map fst (buildExtraLettersFromPattern p))"
  by (simp add: buildExtraLettersFromPattern_def extraScan_distinct split: option.splits)

lemma entry_residual:
  assumes "distinct (map fst B)" and "e \<in> set (subtractExtras B (countLetters w []))"
  shows "fst e \<in> set w \<and> snd e = count_list w (fst e) - getOr0 B (fst e)"
proof -
  let ?wl = "countLetters w []"
  let ?es = "subtractExtras B ?wl"
  have keys: "map fst ?es = map fst ?wl" by (rule subtractExtras_keys)
  have "distinct (map fst ?wl)" by (rule countLetters_distinct) simp
  then have d: "distinct (map fst ?es)" using keys by simp
  have "fst e \<in> set (map fst ?es)" using assms(2) by simp
  then have "fst e \<in> fst ` set ?wl" using keys by simp
  then have in_w: "fst e \<in> set w" by (simp add: countLetters_keys)
  then have "count_list w (fst e) \<noteq> 0" by (simp add: count_list_0_iff)
  then have "map_of ?wl (fst e) = Some (count_list w (fst e))"
    by (simp add: countLetters_map_of getOr0_def)
  then have "map_of ?es (fst e) = Some (count_list w (fst e) - getOr0 B (fst e))"
    by (simp add: subtractExtras_map_of [OF assms(1)])
  moreover have "map_of ?es (fst e) = Some (snd e)"
    using d assms(2) by (simp add: map_of_eq_Some_iff [OF d])
  ultimately show ?thesis using in_w by simp
qed

lemma sum_list_pos_elem:
  "(0::int) < sum_list (map f es) \<Longrightarrow> \<exists>e \<in> set es. 0 < f e"
proof (induction es)
  case Nil
  then show ?case by simp
next
  case (Cons a es)
  have "0 < f a \<or> 0 < sum_list (map f es)" using Cons.prems by (simp, linarith)
  then show ?case using Cons.IH by auto
qed

lemma accepted_with_extras:
  assumes d: "distinct (map fst B)"
    and c: "canForm (canFormWordWithExtras w R j (Some B))"
    and u: "usedUserLetters (canFormWordWithExtras w R j (Some B))"
  shows "\<exists>c \<in> set w. count_list w c > getOr0 B c \<and>
           (getOr0 R c > 0 \<or> wildcardsUsed (canFormWordWithExtras w R j (Some B)) > 0)"
proof -
  let ?es = "subtractExtras B (countLetters w [])"
  let ?n = "sum_list (map (need R) ?es)"
  have wu: "wildcardsUsed (canFormWordWithExtras w R j (Some B)) = ?n"
    using c by (simp add: canFormWordWithExtras_def Let_def split_def coverLoopSkip_fst)
  have "?n > 0 \<or> (\<exists>e \<in> set ?es. snd e > 0 \<and> getOr0 R (fst e) > 0)"
    using u by (simp add: canFormWordWithExtras_def Let_def split_def coverLoopSkip_fst
        coverLoopSkip_snd split: if_splits)
  then show ?thesis
  proof
    assume n: "?n > 0"
    then obtain e where e: "e \<in> set ?es" "need R e > 0" using sum_list_pos_elem by blast
    then have "snd e > 0" by (auto simp: need_def)
    then have "fst e \<in> set w \<and> count_list w (fst e) > getOr0 B (fst e)"
      using entry_residual [OF d e(1)] by simp
    then show ?thesis using n wu by auto
  next
    assume "\<exists>e \<in> set ?es. snd e > 0 \<and> getOr0 R (fst e) > 0"
    then obtain e where e: "e \<in> set ?es" "snd e > 0" "getOr0 R (fst e) > 0" by blast
    then have "fst e \<in> set w \<and> count_list w (fst e) > getOr0 B (fst e)"
      using entry_residual [OF d e(1)] by simp
    then show ?thesis using e(3) by auto
  qed
qed

lemma accepted_without_extras:
  assumes c: "canForm (canFormWord w R j)" and u: "usedUserLetters (canFormWord w R j)"
  shows "\<exists>c \<in> set w. count_list w c > getOr0 [] c \<and>
           (getOr0 R c > 0 \<or> wildcardsUsed (canFormWord w R j) > 0)"
proof -
  let ?es = "countLetters w []"
  let ?n = "sum_list (map (need R) ?es)"
  have es: "?es = subtractExtras [] ?es" by simp
  have res: "fst e \<in> set w \<and> snd e = count_list w (fst e) - getOr0 [] (fst e)" if "e \<in> set ?es" for e
    using entry_residual [of "[]" e w] that by simp
  have wu: "wildcardsUsed (canFormWord w R j) = ?n"
    using c by (simp add: canFormWord_def Let_def split_def coverLoop_fst)
  have "?n > 0 \<or> (\<exists>e \<in> set ?es. getOr0 R (fst e) > 0)"
    using u by (simp add: canFormWord_def Let_def split_def coverLoop_fst coverLoop_snd
        split: if_splits)
  then show ?thesis
  proof
    assume n: "?n > 0"
    then obtain e where e: "e \<in> set ?es" "need R e > 0" using sum_list_pos_elem by blast
    then have "snd e > 0" by (auto simp: need_def)
    then have "fst e \<in> set w \<and> count_list w (fst e) > getOr0 [] (fst e)"
      using res [OF e(1)] by simp
    then show ?thesis using n wu by auto
  next
    assume "\<exists>e \<in> set ?es. getOr0 R (fst e) > 0"
    then obtain e where e: "e \<in> set ?es" "getOr0 R (fst e) > 0" by blast
    have "fst e \<in> set w" using res [OF e(1)] by simp
    then have "count_list w (fst e) \<noteq> 0" by (simp add: count_list_0_iff)
    then have "count_list w (fst e) > 0" by simp
    then have "fst e \<in> set w \<and> count_list w (fst e) > getOr0 [] (fst e)"
      using \<open>fst e \<in> set w\<close> by (simp add: getOr0_def)
    then show ?thesis using e(2) by auto
  qed
qed

lemma searchLoop_accepts:
  assumes d: "distinct (map fst B)"
  shows "r \<in> set (fst (searchLoop R j B f ws (rs, seen))) \<Longrightarrow>
         r \<in> set rs \<or> takesFromPlayer R B r"
proof (induction ws arbitrary: rs seen)
  case Nil
  then show ?case by simp
next
  case (Cons w ws)
  let ?fr = "if B \<noteq> [] then canFormWordWithExtras w R j (Some B) else canFormWord w R j"
  let ?new = "\<lparr>word = w, score = scoreWord w (wildcardsUsed ?fr),
               length_w = int (length w), usedJokers = wildcardsUsed ?fr\<rparr>"
  show ?case
  proof (cases "trim (toUpperCase w) \<notin> set seen \<and> canForm ?fr \<and> usedUserLetters ?fr
                 \<and> passesFilters w f")
    case True
    then have "searchLoop R j B f (w # ws) (rs, seen)
               = searchLoop R j B f ws (rs @ [?new], seen @ [trim (toUpperCase w)])"
      by (simp add: Let_def)
    then have "r \<in> set (fst (searchLoop R j B f ws (rs @ [?new], seen @ [trim (toUpperCase w)])))"
      using Cons.prems by (simp only:)
    then have "r \<in> set (rs @ [?new]) \<or> takesFromPlayer R B r"
      by (rule Cons.IH)
    then have "r \<in> set rs \<or> r = ?new \<or> takesFromPlayer R B r"
      by (simp only: set_append list.set Un_iff insert_iff empty_iff) blast
    moreover have "takesFromPlayer R B ?new"
    proof (cases "B = []")
      case True
      then show ?thesis
        using accepted_without_extras [of w R j] \<open>_ \<and> canForm ?fr \<and> usedUserLetters ?fr \<and> _\<close>
        by (simp add: takesFromPlayer_def)
    next
      case False
      then show ?thesis
        using accepted_with_extras [OF d, of w R j] \<open>_ \<and> canForm ?fr \<and> usedUserLetters ?fr \<and> _\<close>
        by (simp add: takesFromPlayer_def)
    qed
    ultimately show ?thesis by blast
  next
    case False
    then have "searchLoop R j B f (w # ws) (rs, seen) = searchLoop R j B f ws (rs, seen)"
      by (auto simp: Let_def)
    then have "r \<in> set (fst (searchLoop R j B f ws (rs, seen)))"
      using Cons.prems by (simp only:)
    then show ?thesis by (rule Cons.IH)
  qed
qed

lemma set_sortResults: "set (sortResults rs by) = set rs"
  by (simp add: sortResults_def set_jsSort)

text \<open>
  What the main-thread search ensures of its results: some letter of the word has more
  occurrences than the board letters cover, and the rack holds that letter or a wildcard is
  used. A word that the board letters cover entirely is never returned.
\<close>

lemma searchWords_takes_from_player:
  assumes "r \<in> set (searchWords D rack f)"
  shows "\<exists>c \<in> set (word r).
           count_list (word r) c > getOr0 (buildExtraLettersFromPattern (boardPattern f)) c
           \<and> (getOr0 (fst (parseLetters rack)) c > 0 \<or> usedJokers r > 0)"
proof -
  let ?B = "buildExtraLettersFromPattern (boardPattern f)"
  let ?R = "fst (parseLetters rack)"
  have "r \<in> set (fst (searchLoop ?R (snd (parseLetters rack)) ?B f D ([], [])))"
    using assms by (simp add: searchWords_unfold set_sortResults)
  then have "takesFromPlayer ?R ?B r"
    using searchLoop_accepts [OF buildExtra_distinct] by fastforce
  then show ?thesis by (simp add: takesFromPlayer_def)
qed

lemma searchWords_takes_from_player_example:
  "\<lparr>word = jstr ''AB'', score = 1, length_w = 2, usedJokers = 1\<rparr>
     \<in> set (searchWords [jstr ''AB'', jstr ''KAT''] (jstr ''A?'') noFilters)
   \<and> count_list (jstr ''AB'') 65 > getOr0 (buildExtraLettersFromPattern (boardPattern noFilters)) 65
   \<and> getOr0 (fst (parseLetters (jstr ''A?''))) 65 > 0
   \<and> searchWords [jstr ''AB''] (jstr ''X'') (noFilters\<lparr>boardPattern := Some (jstr ''AB'')\<rparr>) = []"
proof -
  have e: "searchWords [jstr ''AB'', jstr ''KAT''] (jstr ''A?'') noFilters
           = [\<lparr>word = jstr ''AB'', score = 1, length_w = 2, usedJokers = 1\<rparr>]"
    by (simp add: eval_defs)
  then have m: "\<lparr>word = jstr ''AB'', score = 1, length_w = 2, usedJokers = 1\<rparr>
     \<in> set (searchWords [jstr ''AB'', jstr ''KAT''] (jstr ''A?'') noFilters)" by simp
  have "\<exists>c \<in> set (jstr ''AB'').
           count_list (jstr ''AB'') c > getOr0 (buildExtraLettersFromPattern (boardPattern noFilters)) c
           \<and> (getOr0 (fst (parseLetters (jstr ''A?''))) c > 0 \<or> (1::int) > 0)"
    using searchWords_takes_from_player [OF m] by simp
  then show ?thesis using m by (simp add: eval_defs matchesBoardPattern_def)
qed

lemma worker_accepted_with_extras:
  assumes d: "distinct (map fst B)"
    and u: "usedUserLetters (worker_canFormWordWithExtras w R j (Some B))"
  shows "\<exists>c \<in> set w. count_list w c > getOr0 B c \<and> getOr0 R c > 0"
proof -
  let ?es = "subtractExtras B (countLetters w [])"
  have "\<exists>e \<in> set ?es. snd e > 0 \<and> getOr0 R (fst e) > 0"
    using u by (simp add: worker_canFormWordWithExtras_def Let_def split_def coverLoopSkip_snd)
  then obtain e where e: "e \<in> set ?es" "snd e > 0" "getOr0 R (fst e) > 0" by blast
  then have "fst e \<in> set w \<and> count_list w (fst e) > getOr0 B (fst e)"
    using entry_residual [OF d e(1)] by simp
  then show ?thesis using e(3) by auto
qed

lemma worker_accepted_without_extras:
  assumes u: "usedUserLetters (worker_canFormWord w R j None)"
  shows "\<exists>c \<in> set w. count_list w c > getOr0 [] c \<and> getOr0 R c > 0"
proof -
  let ?es = "countLetters w []"
  have "\<exists>e \<in> set ?es. getOr0 R (fst e) > 0"
    using u by (simp add: worker_canFormWord_def Let_def split_def coverLoop_snd)
  then obtain e where e: "e \<in> set ?es" "getOr0 R (fst e) > 0" by blast
  have "fst e \<in> set w" using entry_residual [of "[]" e w] e(1) by simp
  then have "count_list w (fst e) \<noteq> 0" by (simp add: count_list_0_iff)
  then have "count_list w (fst e) > getOr0 [] (fst e)" by (simp add: getOr0_def)
  then show ?thesis using \<open>fst e \<in> set w\<close> e(2) by auto
qed

lemma worker_searchLoop_accepts:
  assumes d: "distinct (map fst B)"
  shows "r \<in> set (fst (worker_searchLoop R j B f ws (rs, seen))) \<Longrightarrow>
         r \<in> set rs \<or> (\<exists>c \<in> set (word r). count_list (word r) c > getOr0 B c \<and> getOr0 R c > 0)"
proof (induction ws arbitrary: rs seen)
  case Nil
  then show ?case by simp
next
  case (Cons w ws)
  let ?fr = "if B \<noteq> [] then worker_canFormWordWithExtras w R j (Some B)
             else worker_canFormWord w R j None"
  let ?new = "\<lparr>word = w, score = worker_scoreWord w (wildcardsUsed ?fr),
               length_w = int (length w), usedJokers = wildcardsUsed ?fr\<rparr>"
  let ?P = "\<lambda>r. \<exists>c \<in> set (word r). count_list (word r) c > getOr0 B c \<and> getOr0 R c > 0"
  show ?case
  proof (cases "trim (toUpperCase w) \<notin> set seen \<and> canForm ?fr \<and> usedUserLetters ?fr
                 \<and> worker_passesFilters w f")
    case True
    then have "worker_searchLoop R j B f (w # ws) (rs, seen)
               = worker_searchLoop R j B f ws (rs @ [?new], seen @ [trim (toUpperCase w)])"
      by (simp add: Let_def)
    then have "r \<in> set (fst (worker_searchLoop R j B f ws (rs @ [?new], seen @ [trim (toUpperCase w)])))"
      using Cons.prems by (simp only:)
    then have "r \<in> set (rs @ [?new]) \<or> ?P r"
      by (rule Cons.IH)
    then have "r \<in> set rs \<or> r = ?new \<or> ?P r"
      by (simp only: set_append list.set Un_iff insert_iff empty_iff) blast
    moreover have "?P ?new"
    proof (cases "B = []")
      case True
      then show ?thesis
        using worker_accepted_without_extras [of w R j]
              \<open>_ \<and> canForm ?fr \<and> usedUserLetters ?fr \<and> _\<close>
        by simp
    next
      case False
      then show ?thesis
        using worker_accepted_with_extras [OF d, of w R j]
              \<open>_ \<and> canForm ?fr \<and> usedUserLetters ?fr \<and> _\<close>
        by simp
    qed
    ultimately show ?thesis by blast
  next
    case False
    then have "worker_searchLoop R j B f (w # ws) (rs, seen) = worker_searchLoop R j B f ws (rs, seen)"
      by (auto simp: Let_def)
    then have "r \<in> set (fst (worker_searchLoop R j B f ws (rs, seen)))"
      using Cons.prems by (simp only:)
    then show ?thesis by (rule Cons.IH)
  qed
qed

lemma worker_buildExtra_distinct: "distinct (map fst (worker_buildExtraLettersFromPattern p))"
  by (simp add: worker_buildExtraLettersFromPattern_def extraScan_distinct split: option.splits)

text \<open>
  The worker's search keeps the stricter rule: every result it posts has a letter that the
  board letters do not cover entirely and that the rack itself holds.
\<close>

lemma handleSearch_uses_rack_letter:
  assumes "handleSearch D rack f = Some res" and "r \<in> set res"
  shows "\<exists>c \<in> set (word r).
           count_list (word r) c > getOr0 (worker_buildExtraLettersFromPattern (boardPattern f)) c
           \<and> getOr0 (fst (parseLetters rack)) c > 0"
proof -
  let ?B = "worker_buildExtraLettersFromPattern (boardPattern f)"
  let ?R = "fst (parseLetters rack)"
  have "res = sortResults (fst (worker_searchLoop ?R (snd (parseLetters rack)) ?B f D ([], [])))
                (orDefault (sortBy f) ''score'')"
    using assms(1) by (simp add: handleSearch_def split_def Let_def split: if_splits)
  then have "r \<in> set (fst (worker_searchLoop ?R (snd (parseLetters rack)) ?B f D ([], [])))"
    using assms(2) by (simp add: set_sortResults)
  then show ?thesis
    using worker_searchLoop_accepts [OF worker_buildExtra_distinct] by fastforce
qed

text \<open>
  C1: on the rack \<open>??\<close>, with no board letters, the main-thread search returns the word
  \<open>AB\<close>, formed from two wildcards, although the rack holds neither \<open>A\<close> nor \<open>B\<close>: no
  letter of the rack is used, against the claim and against the comment on the test in
  \<open>searchWords\<close>.
\<close>

theorem searchWords_returns_wildcards_only_word:
  "searchWords [jstr ''AB''] (jstr ''??'') noFilters
     = [\<lparr>word = jstr ''AB'', score = 0, length_w = 2, usedJokers = 2\<rparr>]
   \<and> getOr0 (fst (parseLetters (jstr ''??''))) 65 = 0
   \<and> getOr0 (fst (parseLetters (jstr ''??''))) 66 = 0
   \<and> buildExtraLettersFromPattern (boardPattern noFilters) = []"
  by (simp add: eval_defs)

section \<open>The two search paths\<close>

text \<open>
  C2: on the rack \<open>??\<close>, the word list \<open>AB\<close> and no filter, the main-thread search returns
  \<open>AB\<close> and the worker returns no result.
\<close>

theorem worker_and_main_thread_differ:
  "searchWords [jstr ''AB''] (jstr ''??'') noFilters
     = [\<lparr>word = jstr ''AB'', score = 0, length_w = 2, usedJokers = 2\<rparr>]
   \<and> handleSearch [jstr ''AB''] (jstr ''??'') noFilters = Some []
   \<and> handleSearch [jstr ''AB''] (jstr ''??'') noFilters
       \<noteq> Some (searchWords [jstr ''AB''] (jstr ''??'') noFilters)"
  by (simp add: eval_defs)

end
